theory Spec2Isabelle
  imports Main "HOL-Library.AList"
begin

section \<open>The Dataloader class and the part of the JavaScript runtime it uses\<close>

text \<open>
  The class \<^verbatim>\<open>Dataloader<T, R>\<close> keeps five private fields and has two methods,
  \<^verbatim>\<open>load\<close> and \<^verbatim>\<open>flushJobs\<close>. Both work through effects of the runtime:
  \<^verbatim>\<open>load\<close> allocates a Promise and queues a microtask, \<^verbatim>\<open>flushJobs\<close> calls
  the loader function and registers a \<^verbatim>\<open>then\<close> and a \<^verbatim>\<open>catch\<close> callback on its
  result. The model makes these effects explicit in a \<open>world\<close>: the fields of the
  instance, the store of Promise objects, the microtask queue, the loader Promises that have
  not settled yet, and a log of the calls of the loader function.

  Keys of type \<open>'k\<close> are compared with HOL equality, which stands for the comparison of a
  JavaScript \<^verbatim>\<open>Map\<close> (by value for primitives, by reference for objects). Values
  of type \<open>'v\<close> are the plain values, those that are not thenables; an array that the loader
  function hands over may also hold thenables and may have holes.
\<close>

subsection \<open>Promises\<close>

text \<open>
  A Promise object is identified by its address in the store, its allocation number. The
  \<^verbatim>\<open>resolve\<close> and \<^verbatim>\<open>reject\<close> functions that the Promise constructor hands to
  its executor are identified by the Promise they settle.
\<close>

text \<open>
  A rejection reason is the value the loader function or a thenable failed with, or the
  \<^verbatim>\<open>TypeError\<close> that JavaScript raises when \<^verbatim>\<open>undefined\<close> is called.
\<close>

datatype 'e reason = TypeError | Thrown 'e

text \<open>How something asynchronous ends: with a value or with an error.\<close>

datatype ('a, 'e) outcome = Fulfils 'a | Rejects 'e

text \<open>
  What an array of results holds at one index: nothing (a hole of a sparse array, as in
  \<^verbatim>\<open>new Array(n)\<close> filled index by index), a plain value, or a thenable, which later
  fulfils with a plain value, or rejects, or never settles (\<open>None\<close>). A value that
  \<^verbatim>\<open>resolve\<close> refuses at once, an object whose \<^verbatim>\<open>then\<close> cannot be read or
  the Promise itself, is a thenable that rejects and is adopted without delay.
\<close>

datatype ('v, 'e) item = Hole | Value 'v | Thenable "('v, 'e) outcome option"

text \<open>
  A Promise is pending, or it has been resolved with a thenable, which it follows until the
  thenable settles, or it is fulfilled or rejected.
\<close>

datatype ('v, 'e) promise =
    Pending
  | Following "('v, 'e) outcome option"
  | Fulfilled 'v
  | Rejected "'e reason"

text \<open>
  Calling the \<^verbatim>\<open>resolve\<close> or \<^verbatim>\<open>reject\<close> function of Promise \<open>p\<close>: only the
  first call on a pending Promise has an effect.
\<close>

definition settle :: "nat \<Rightarrow> ('v, 'e) promise \<Rightarrow> ('v, 'e) promise list \<Rightarrow> ('v, 'e) promise list" where
  "settle p s h = (if p < length h \<and> h ! p = Pending then h[p := s] else h)"

text \<open>
  What \<^verbatim>\<open>resolve(ret)\<close> makes of a pending Promise: a plain value fulfils it, a
  thenable is adopted. (\<^verbatim>\<open>forEach\<close> never passes a hole.)
\<close>

fun resolution :: "('v, 'e) item \<Rightarrow> ('v, 'e) promise" where
  "resolution (Value v) = Fulfilled v"
| "resolution (Thenable out) = Following out"
| "resolution Hole = Pending"

text \<open>
  The thenable that Promise \<open>p\<close> follows settles, and \<open>p\<close> with it. A thenable that never
  settles leaves \<open>p\<close> as it is.
\<close>

definition adopt :: "nat \<Rightarrow> ('v, 'e) promise list \<Rightarrow> ('v, 'e) promise list" where
  "adopt p h =
     (if p < length h
      then (case h ! p of
              Following (Some (Fulfils v)) \<Rightarrow> h[p := Fulfilled v]
            | Following (Some (Rejects e)) \<Rightarrow> h[p := Rejected (Thrown e)]
            | _ \<Rightarrow> h)
      else h)"

subsection \<open>The instance, the loader function and the world\<close>

text \<open>
  The private fields, lines 29 to 33. \<^verbatim>\<open>cachePromises\<close> is a \<^verbatim>\<open>Map\<close>, which keeps
  its entries in insertion order: an association list, read with \<open>map_of\<close> and written
  with \<open>AList.update\<close>.
\<close>

record 'k dataloader =
  isFlushPending :: bool
  resolveArr :: "nat list"
  rejectArr :: "nat list"
  data :: "'k list"
  cachePromises :: "('k \<times> nat) list"

text \<open>The fields as the field initialisers set them.\<close>

definition new_dataloader :: "'k dataloader" where
  "new_dataloader =
     \<lparr>isFlushPending = False, resolveArr = [], rejectArr = [], data = [], cachePromises = []\<rparr>"

text \<open>
  The loader function has type \<^verbatim>\<open>(args: T[]) => Promise<R[]> | R[]\<close>. One call of it
  either returns an array, or throws, or returns a Promise; the Promise later fulfils with an
  array, or rejects, or never settles (\<open>None\<close>).
\<close>

type_synonym ('v, 'e) settlement = "(('v, 'e) item list, 'e) outcome"

datatype ('v, 'e) loader_result =
    Returns "('v, 'e) item list"
  | Throws 'e
  | ReturnsPromise "('v, 'e) settlement option"

text \<open>
  The loader function is a parameter of the model. While it runs it may itself call
  \<^verbatim>\<open>load\<close> on the same instance; the first component of its answer lists the keys of
  these calls, in order, the second is how the call ends.
\<close>

type_synonym ('k, 'v, 'e) loaderFn = "'k list \<Rightarrow> 'k list \<times> ('v, 'e) loader_result"

text \<open>
  The jobs of the microtask queue: a scheduled \<^verbatim>\<open>flushJobs\<close>; the reaction of
  \<^verbatim>\<open>.then(...)\<close> to the settled loader Promise, holding the callback's captured
  \<^verbatim>\<open>currentResolvers\<close> and the \<^verbatim>\<open>currentRejectors\<close> captured by the
  \<^verbatim>\<open>catch\<close> callback chained behind it; the reaction of \<^verbatim>\<open>.catch(...)\<close> to a
  rejected \<^verbatim>\<open>then\<close> Promise.
\<close>

datatype ('v, 'e) task =
    FlushJobs
  | ThenReaction "('v, 'e) settlement" "nat list" "nat list"
  | CatchReaction "'e reason" "nat list"

record ('k, 'v, 'e) world =
  dl :: "'k dataloader"
  heap :: "('v, 'e) promise list"
  microtasks :: "('v, 'e) task list"
  inflight :: "(('v, 'e) settlement option \<times> nat list \<times> nat list) list"
  calls :: "'k list list"
  uncaught :: "'e list"

text \<open>
  \<open>inflight\<close> holds, for every loader Promise that is still pending, how it will settle and
  the two callback lists captured by the reactions registered on it. \<open>calls\<close> records the
  argument of every call of the loader function. \<open>uncaught\<close> records the exceptions that
  left \<^verbatim>\<open>flushJobs\<close>.
\<close>

definition new_world :: "('k, 'v, 'e) world" where
  "new_world = \<lparr>dl = new_dataloader, heap = [], microtasks = [], inflight = [], calls = [],
                 uncaught = []\<rparr>"

subsection \<open>load, lines 39 to 61\<close>

text \<open>
  A cached key returns the cached Promise. Otherwise the Promise constructor allocates the
  Promise and runs the executor at once: it pushes \<^verbatim>\<open>resolve\<close>, \<^verbatim>\<open>reject\<close> and
  the key, and when no flush is pending it sets the flag and queues \<^verbatim>\<open>flushJobs\<close> as
  a microtask (\<^verbatim>\<open>queueMicrotask\<close>, or \<^verbatim>\<open>Promise.resolve().then\<close> where that is
  missing: a microtask either way). Then the Promise is stored in the cache and returned.
\<close>

definition load :: "'k \<Rightarrow> ('k, 'v, 'e) world \<Rightarrow> nat \<times> ('k, 'v, 'e) world" where
  "load arg w =
     (case map_of (cachePromises (dl w)) arg of
        Some p \<Rightarrow> (p, w)
      | None \<Rightarrow>
          let p = length (heap w);
              d = dl w;
              d1 = d\<lparr>resolveArr := resolveArr d @ [p],
                     rejectArr := rejectArr d @ [p],
                     data := data d @ [arg]\<rparr>;
              d2 = (if \<not> isFlushPending d1 then d1\<lparr>isFlushPending := True\<rparr> else d1);
              q = (if \<not> isFlushPending d1 then microtasks w @ [FlushJobs] else microtasks w);
              d3 = d2\<lparr>cachePromises := AList.update arg p (cachePromises d2)\<rparr>
          in (p, w\<lparr>dl := d3, heap := heap w @ [Pending], microtasks := q\<rparr>))"

text \<open>A run of \<^verbatim>\<open>load\<close> calls, one after the other, the returned Promises dropped.\<close>

definition loads :: "'k list \<Rightarrow> ('k, 'v, 'e) world \<Rightarrow> ('k, 'v, 'e) world" where
  "loads ks w = fold (\<lambda>k w'. snd (load k w')) ks w"

subsection \<open>flushJobs, lines 63 to 86\<close>

text \<open>
  The synchronous part of \<^verbatim>\<open>flushJobs\<close>, in the order of the source: the guard on an
  empty \<^verbatim>\<open>data\<close>; the three copies; the reset of the five fields; the call of the
  loader function, during which the loader's own \<^verbatim>\<open>load\<close> calls run. A thrown
  exception leaves \<^verbatim>\<open>flushJobs\<close> before \<^verbatim>\<open>Promise.resolve\<close> is reached, so no
  callback is registered. A returned array makes \<^verbatim>\<open>Promise.resolve\<close> give a fulfilled
  Promise, and \<^verbatim>\<open>.then\<close> on it queues the reaction at once. A returned Promise is
  waited for.
\<close>

definition flushJobs :: "('k, 'v, 'e) loaderFn \<Rightarrow> ('k, 'v, 'e) world \<Rightarrow> ('k, 'v, 'e) world" where
  "flushJobs loaderFn w =
     (if length (data (dl w)) = 0 then w\<lparr>dl := (dl w)\<lparr>isFlushPending := False\<rparr>\<rparr>
      else
        let currentData = data (dl w);
            currentResolvers = resolveArr (dl w);
            currentRejectors = rejectArr (dl w);
            w1 = w\<lparr>dl := (dl w)\<lparr>cachePromises := [], rejectArr := [], resolveArr := [],
                                 data := [], isFlushPending := False\<rparr>\<rparr>;
            w2 = loads (fst (loaderFn currentData)) (w1\<lparr>calls := calls w1 @ [currentData]\<rparr>)
        in case snd (loaderFn currentData) of
             Throws e \<Rightarrow> w2\<lparr>uncaught := uncaught w2 @ [e]\<rparr>
           | Returns rets \<Rightarrow>
               w2\<lparr>microtasks := microtasks w2 @
                     [ThenReaction (Fulfils rets) currentResolvers currentRejectors]\<rparr>
           | ReturnsPromise s \<Rightarrow>
               w2\<lparr>inflight := inflight w2 @ [(s, currentResolvers, currentRejectors)]\<rparr>)"

text \<open>
  The \<^verbatim>\<open>then\<close> callback, lines 79 to 81: \<^verbatim>\<open>rets.forEach\<close> goes through the
  indices of \<^verbatim>\<open>rets\<close> in turn, skips the holes, and calls
  \<^verbatim>\<open>currentResolvers[index](ret)\<close> for every other element. Past the end of
  \<^verbatim>\<open>currentResolvers\<close> the resolver is \<^verbatim>\<open>undefined\<close> and the call throws a
  \<^verbatim>\<open>TypeError\<close>, which ends the loop; the store keeps what was done before. The
  result is the store and whether the loop ran to its end (\<open>False\<close>: it threw).
  \<^verbatim>\<open>rets\<close> is an array, as the type \<^verbatim>\<open>R[]\<close> of the loader's result says.
\<close>

fun forEach_resolve ::
  "nat list \<Rightarrow> nat \<Rightarrow> ('v, 'e) item list \<Rightarrow> ('v, 'e) promise list \<Rightarrow>
   ('v, 'e) promise list \<times> bool" where
  "forEach_resolve currentResolvers index [] h = (h, True)"
| "forEach_resolve currentResolvers index (Hole # rets) h =
     forEach_resolve currentResolvers (Suc index) rets h"
| "forEach_resolve currentResolvers index (ret # rets) h =
     (if index < length currentResolvers
      then forEach_resolve currentResolvers (Suc index) rets
             (settle (currentResolvers ! index) (resolution ret) h)
      else (h, False))"

text \<open>The \<^verbatim>\<open>catch\<close> callback, line 84: every rejector is called with the error.\<close>

definition forEach_reject ::
  "'e reason \<Rightarrow> nat list \<Rightarrow> ('v, 'e) promise list \<Rightarrow> ('v, 'e) promise list" where
  "forEach_reject err currentRejectors h = fold (\<lambda>rej h'. settle rej (Rejected err) h') currentRejectors h"

subsection \<open>Running the microtask queue\<close>

text \<open>
  A \<^verbatim>\<open>then\<close> reaction on a rejected loader Promise has no rejection handler: the
  rejection passes to the Promise that \<^verbatim>\<open>.then\<close> returned, and the \<^verbatim>\<open>catch\<close>
  reaction on that one is queued. On a fulfilled loader Promise the callback runs; when it
  throws, the \<^verbatim>\<open>catch\<close> reaction is queued with the thrown error. When it returns,
  the \<^verbatim>\<open>catch\<close> reaction has no callback to run and is left out of the queue.
\<close>

fun exec_task ::
  "('k, 'v, 'e) loaderFn \<Rightarrow> ('v, 'e) task \<Rightarrow> ('k, 'v, 'e) world \<Rightarrow> ('k, 'v, 'e) world" where
  "exec_task loaderFn FlushJobs w = flushJobs loaderFn w"
| "exec_task loaderFn (ThenReaction (Rejects e) currentResolvers currentRejectors) w =
     w\<lparr>microtasks := microtasks w @ [CatchReaction (Thrown e) currentRejectors]\<rparr>"
| "exec_task loaderFn (ThenReaction (Fulfils rets) currentResolvers currentRejectors) w =
     (case forEach_resolve currentResolvers 0 rets (heap w) of
        (h, True) \<Rightarrow> w\<lparr>heap := h\<rparr>
      | (h, False) \<Rightarrow>
          w\<lparr>heap := h, microtasks := microtasks w @ [CatchReaction TypeError currentRejectors]\<rparr>)"
| "exec_task loaderFn (CatchReaction err currentRejectors) w =
     w\<lparr>heap := forEach_reject err currentRejectors (heap w)\<rparr>"

text \<open>The runtime takes the oldest microtask off the queue and runs it.\<close>

definition run_microtask ::
  "('k, 'v, 'e) loaderFn \<Rightarrow> ('k, 'v, 'e) world \<Rightarrow> ('k, 'v, 'e) world" where
  "run_microtask loaderFn w =
     (case microtasks w of
        [] \<Rightarrow> w
      | t # ts \<Rightarrow> exec_task loaderFn t (w\<lparr>microtasks := ts\<rparr>))"

text \<open>
  The \<open>i\<close>-th pending loader Promise settles, as the loader decided: the \<^verbatim>\<open>then\<close>
  reaction registered on it is queued. A Promise that never settles queues nothing.
\<close>

definition loader_settles :: "nat \<Rightarrow> ('k, 'v, 'e) world \<Rightarrow> ('k, 'v, 'e) world" where
  "loader_settles i w =
     (if i < length (inflight w)
      then (case inflight w ! i of
              (Some s, currentResolvers, currentRejectors) \<Rightarrow>
                w\<lparr>inflight := take i (inflight w) @ drop (Suc i) (inflight w),
                   microtasks := microtasks w @ [ThenReaction s currentResolvers currentRejectors]\<rparr>
            | (None, _, _) \<Rightarrow> w)
      else w)"

text \<open>
  Everything that can happen to one instance: user code calls \<^verbatim>\<open>load\<close>, the runtime
  runs the oldest microtask, a loader Promise settles, a thenable that a Promise follows
  settles. A JavaScript function need not behave
  the same way at every call, so the event of a microtask says how the loader function
  behaves if this microtask calls it. The worlds that a program can be in are those reached
  from a fresh instance by such events, in any order and with any behaviour of the loader
  function.
\<close>

datatype ('k, 'v, 'e) event =
    Load 'k
  | Microtask "('k, 'v, 'e) loaderFn"
  | Settles nat
  | Adopts nat

fun step :: "('k, 'v, 'e) event \<Rightarrow> ('k, 'v, 'e) world \<Rightarrow> ('k, 'v, 'e) world" where
  "step (Load k) w = snd (load k w)"
| "step (Microtask loaderFn) w = run_microtask loaderFn w"
| "step (Settles i) w = loader_settles i w"
| "step (Adopts p) w = w\<lparr>heap := adopt p (heap w)\<rparr>"

inductive reachable :: "('k, 'v, 'e) world \<Rightarrow> bool" where
  fresh: "reachable new_world"
| after: "reachable w \<Longrightarrow> reachable (step ev w)"

subsection \<open>The deduplicated key list, as the specification words it\<close>

text \<open>
  Each distinct key once, in the order of each key's first occurrence: the head is kept and
  its later occurrences are dropped from the rest.
\<close>

primrec first_seen :: "'k list \<Rightarrow> 'k list" where
  "first_seen [] = []"
| "first_seen (k # ks) = k # filter (\<lambda>x. x \<noteq> k) (first_seen ks)"

subsection \<open>A batch in closed form\<close>

text \<open>
  The world after the \<^verbatim>\<open>load\<close> calls \<open>ks\<close> on an instance whose fields are all
  empty, in closed form: the distinct keys in first-seen order, one freshly allocated Promise
  for each, and one queued \<^verbatim>\<open>flushJobs\<close> when there was a call at all. Lemma
  \<open>loads_idle\<close> proves that \<open>loads\<close> computes it.
\<close>

definition batch_of :: "'k list \<Rightarrow> ('k, 'v, 'e) world \<Rightarrow> ('k, 'v, 'e) world" where
  "batch_of ks w =
     (let n = length (heap w); m = length (first_seen ks) in
      w\<lparr>dl := \<lparr>isFlushPending = ks \<noteq> [], resolveArr = [n..<n + m], rejectArr = [n..<n + m],
               data = first_seen ks, cachePromises = zip (first_seen ks) [n..<n + m]\<rparr>,
        heap := heap w @ replicate m Pending,
        microtasks := microtasks w @ (if ks = [] then [] else [FlushJobs])\<rparr>)"

subsection \<open>Concrete runs\<close>

text \<open>A fresh instance with numbers as keys and as values.\<close>

abbreviation new_world_nat :: "(nat, nat, unit) world" where
  "new_world_nat \<equiv> new_world"

text \<open>
  Loader functions for concrete runs. The first two are loaders of the repository's tests,
  \<^verbatim>\<open>(keys) => keys.map((key) => key * 10)\<close> and its \<^verbatim>\<open>async\<close> form, whose
  result is a Promise. The others throw, return a Promise that rejects, return one value too
  few or one too many, and call \<^verbatim>\<open>load\<close> again for the keys they were given.
\<close>

definition times_ten :: "(nat, nat, unit) loaderFn" where
  "times_ten keys = ([], Returns (map (\<lambda>key. Value (key * 10)) keys))"

definition times_ten_async :: "(nat, nat, unit) loaderFn" where
  "times_ten_async keys =
     ([], ReturnsPromise (Some (Fulfils (map (\<lambda>key. Value (key * 10)) keys))))"

definition always_throws :: "(nat, nat, unit) loaderFn" where
  "always_throws keys = ([], Throws ())"

definition always_rejects :: "(nat, nat, unit) loaderFn" where
  "always_rejects keys = ([], ReturnsPromise (Some (Rejects ())))"

definition drops_last :: "(nat, nat, unit) loaderFn" where
  "drops_last keys = ([], Returns (map (\<lambda>key. Value (key * 10)) (butlast keys)))"


definition loads_again :: "(nat, nat, unit) loaderFn" where
  "loads_again keys = (keys, ReturnsPromise None)"

text \<open>The first loader function again, made to throw when it is given no key.\<close>

definition throws_on_empty :: "(nat, nat, unit) loaderFn" where
  "throws_on_empty keys = (if keys = [] then ([], Throws ()) else times_ten keys)"

text \<open>
  A loader function that builds its result with \<^verbatim>\<open>new Array(keys.length)\<close> and
  fills every index but the second; the same with one more element appended; and
  \<^verbatim>\<open>(keys) => keys.map(fetchOne)\<close>, whose elements are Promises, the one for key
  \<open>0\<close> rejecting.
\<close>

definition skips_second :: "(nat, nat, unit) loaderFn" where
  "skips_second keys = ([], Returns ((map (\<lambda>key. Value (key * 10)) keys)[1 := Hole]))"


definition fetch_each :: "(nat, nat, unit) loaderFn" where
  "fetch_each keys =
     ([], Returns (map (\<lambda>key. Thenable (Some (if key = 0 then Rejects ()
                                                 else Fulfils (key * 10)))) keys))"

subsection \<open>What becomes of a Promise of a batch\<close>

text \<open>
  The states that the Promise at an index can be in, from the moment the \<^verbatim>\<open>then\<close>
  callback has passed that index: pending where the result has a hole, fulfilled with a
  plain value, and for a thenable following it or settled as the thenable settled.
\<close>

fun settled_by :: "('v, 'e) item \<Rightarrow> ('v, 'e) promise \<Rightarrow> bool" where
  "settled_by Hole s = (s = Pending)"
| "settled_by (Value v) s = (s = Fulfilled v)"
| "settled_by (Thenable out) s =
     (s = Following out \<or>
      (case out of
         None \<Rightarrow> False
       | Some (Fulfils v) \<Rightarrow> s = Fulfilled v
       | Some (Rejects e) \<Rightarrow> s = Rejected (Thrown e)))"

text \<open>
  The resolvers that a run of the \<^verbatim>\<open>then\<close> callback to its end does not call: those
  at a hole and those past the end of the result.
\<close>

fun left_pending :: "nat list \<Rightarrow> ('v, 'e) item list \<Rightarrow> nat list" where
  "left_pending [] rets = []"
| "left_pending (r # rs) [] = r # rs"
| "left_pending (r # rs) (Hole # rets) = r # left_pending rs rets"
| "left_pending (r # rs) (ret # rets) = left_pending rs rets"

subsection \<open>Invariants of the reachable worlds\<close>

text \<open>
  The invariant of scheduling: a \<^verbatim>\<open>flushJobs\<close> is queued exactly when the flag is
  set, the flag is set exactly when a key is pending, the pending keys are distinct, and the
  cache maps the \<open>i\<close>-th pending key to the Promise of the \<open>i\<close>-th resolver.
\<close>

definition sched_inv :: "('k, 'v, 'e) world \<Rightarrow> bool" where
  "sched_inv w \<longleftrightarrow>
     count_list (microtasks w) FlushJobs = (if isFlushPending (dl w) then 1 else 0) \<and>
     (isFlushPending (dl w) \<longleftrightarrow> data (dl w) \<noteq> []) \<and>
     map fst (cachePromises (dl w)) = data (dl w) \<and>
     map snd (cachePromises (dl w)) = resolveArr (dl w) \<and>
     distinct (data (dl w))"

text \<open>
  The invariant of the Promise store. A reaction that has not run yet holds the Promises of
  its batch, which it will settle. The \<^verbatim>\<open>catch\<close> reaction to a \<^verbatim>\<open>TypeError\<close>
  holds none: it is queued when the \<^verbatim>\<open>then\<close> reaction of its batch has run and has
  let go of them.
\<close>

fun reaction_pids :: "('v, 'e) task \<Rightarrow> nat list" where
  "reaction_pids (ThenReaction s rs rjs) = rs"
| "reaction_pids (CatchReaction (Thrown e) rjs) = rjs"
| "reaction_pids t = []"

text \<open>
  What else is known of a queued task, given the size of the store and the Promises that are
  held: the two callback lists of a \<^verbatim>\<open>then\<close> reaction name the same Promises, and
  the Promises of a \<^verbatim>\<open>TypeError\<close> reaction are allocated and held by nothing.
\<close>

fun task_ok :: "nat \<Rightarrow> nat list \<Rightarrow> ('v, 'e) task \<Rightarrow> bool" where
  "task_ok n held (ThenReaction s rs rjs) = (rjs = rs)"
| "task_ok n held (CatchReaction TypeError rjs) = (\<forall>p \<in> set rjs. p < n \<and> p \<notin> set held)"
| "task_ok n held t = True"

text \<open>
  \<open>owned\<close> lists the Promises held by the open batch, by the queued reactions and by the
  reactions registered on pending loader Promises.
\<close>

definition tasks_pids :: "('v, 'e) task list \<Rightarrow> nat list" where
  "tasks_pids q = concat (map reaction_pids q)"

definition inflight_pids :: "(('v, 'e) settlement option \<times> nat list \<times> nat list) list \<Rightarrow> nat list" where
  "inflight_pids fl = concat (map (\<lambda>e. fst (snd e)) fl)"

definition owned :: "('k, 'v, 'e) world \<Rightarrow> nat list" where
  "owned w = resolveArr (dl w) @ tasks_pids (microtasks w) @ inflight_pids (inflight w)"

text \<open>
  No Promise has two holders, every held Promise is allocated and pending, the rejector
  lists equal the resolver lists, and every queued task is as described. The list \<open>xs\<close>
  names further pending Promises, which nothing holds and no queued reaction names: since
  only such reactions settle Promises, they stay pending.
\<close>

definition heap_inv :: "nat list \<Rightarrow> ('k, 'v, 'e) world \<Rightarrow> bool" where
  "heap_inv xs w \<longleftrightarrow>
     distinct (xs @ owned w) \<and>
     (\<forall>p \<in> set (xs @ owned w). p < length (heap w) \<and> heap w ! p = Pending) \<and>
     rejectArr (dl w) = resolveArr (dl w) \<and>
     (\<forall>t \<in> set (microtasks w). task_ok (length (heap w)) (xs @ owned w) t) \<and>
     (\<forall>e \<in> set (inflight w). snd (snd e) = fst (snd e))"

section \<open>Basic facts\<close>

subsection \<open>The deduplicated key list\<close>

lemma first_seen_set [simp]: "set (first_seen ks) = set ks"
  by (induction ks) auto

lemma first_seen_distinct [simp]: "distinct (first_seen ks)"
  by (induction ks) auto

lemma first_seen_snoc:
  "first_seen (ks @ [k]) = first_seen ks @ (if k \<in> set ks then [] else [k])"
  by (induction ks) auto

lemma first_seen_distinct_id: "distinct xs \<Longrightarrow> first_seen xs = xs"
  by (induction xs) (auto simp: filter_id_conv)

lemma first_seen_by_index:
  "first_seen ks = map (\<lambda>i. ks ! i) (filter (\<lambda>i. ks ! i \<notin> set (take i ks)) [0..<length ks])"
proof (induction ks rule: rev_induct)
  case Nil
  then show ?case by simp
next
  case (snoc k ks)
  let ?P = "\<lambda>xs i. xs ! i \<notin> set (take i xs)"
  have f: "filter (?P (ks @ [k])) [0..<length ks] = filter (?P ks) [0..<length ks]"
    by (rule filter_cong) (auto simp: nth_append)
  have m: "map (\<lambda>i. (ks @ [k]) ! i) (filter (?P ks) [0..<length ks]) =
           map (\<lambda>i. ks ! i) (filter (?P ks) [0..<length ks])"
    by (rule map_cong) (auto simp: nth_append)
  have "map (\<lambda>i. (ks @ [k]) ! i) (filter (?P (ks @ [k])) [0..<length (ks @ [k])]) =
        map (\<lambda>i. (ks @ [k]) ! i) (filter (?P (ks @ [k])) [0..<length ks]) @
        (if k \<in> set ks then [] else [k])"
    by simp
  also have "\<dots> = first_seen ks @ (if k \<in> set ks then [] else [k])"
    unfolding f m using snoc by simp
  finally show ?case by (simp only: first_seen_snoc)
qed

subsection \<open>Settling Promises\<close>

lemma length_settle [simp]: "length (settle p s h) = length h"
  by (simp add: settle_def)

lemma settle_other: "q \<noteq> p \<Longrightarrow> settle p s h ! q = h ! q"
  by (simp add: settle_def)

lemma settle_settled: "h ! q \<noteq> Pending \<Longrightarrow> settle p s h ! q = h ! q"
  by (cases "q = p") (auto simp: settle_def)

lemma settle_pending: "p < length h \<Longrightarrow> h ! p = Pending \<Longrightarrow> settle p s h ! p = s"
  by (simp add: settle_def)

lemma length_adopt [simp]: "length (adopt p h) = length h"
  by (simp add: adopt_def split: promise.split option.split outcome.split)

lemma adopt_other: "q \<noteq> p \<Longrightarrow> adopt p h ! q = h ! q"
  by (simp add: adopt_def split: promise.split option.split outcome.split)

lemma adopt_pending: "h ! q = Pending \<Longrightarrow> adopt p h ! q = Pending"
  by (cases "q = p") (auto simp: adopt_def split: promise.split option.split outcome.split)


lemma settled_by_settle:
  "ret \<noteq> Hole \<Longrightarrow> settled_by ret (h ! q) \<Longrightarrow> settled_by ret (settle p s h ! q)"
  by (cases ret) (auto simp: settle_settled split: option.splits outcome.splits)

lemma settled_by_adopt:
  assumes "ret \<noteq> Hole" and "q < length h" and "settled_by ret (h ! q)"
  shows "settled_by ret (adopt p h ! q)"
proof (cases "q = p")
  case False
  with assms show ?thesis by (simp add: adopt_other)
next
  case True
  with assms show ?thesis
    by (cases ret) (auto simp: adopt_def split: option.splits outcome.splits)
qed

lemma settled_by_resolution: "settled_by ret (resolution ret)"
  by (cases ret) simp_all

lemma resolution_not_pending: "ret \<noteq> Hole \<Longrightarrow> resolution ret \<noteq> Pending"
  by (cases ret) simp_all

lemma settled_by_not_pending: "ret \<noteq> Hole \<Longrightarrow> settled_by ret s \<Longrightarrow> s \<noteq> Pending"
  by (cases ret) (auto split: option.splits outcome.splits)

lemma length_forEach_resolve [simp]: "length (fst (forEach_resolve rs i rets h)) = length h"
  by (induction rs i rets h rule: forEach_resolve.induct) auto

lemma forEach_resolve_settled:
  "h ! q \<noteq> Pending \<Longrightarrow> fst (forEach_resolve rs i rets h) ! q = h ! q"
  by (induction rs i rets h rule: forEach_resolve.induct) (auto simp: settle_settled)

lemma forEach_resolve_past: "length rs \<le> i \<Longrightarrow> fst (forEach_resolve rs i rets h) = h"
  by (induction rs i rets h rule: forEach_resolve.induct) auto

lemma forEach_resolve_Cons:
  "forEach_resolve rs i (ret # rets) h =
     (if ret = Hole then forEach_resolve rs (Suc i) rets h
      else if i < length rs
           then forEach_resolve rs (Suc i) rets (settle (rs ! i) (resolution ret) h)
           else (h, False))"
  by (cases ret) simp_all

lemma forEach_resolve_other:
  "q \<notin> set (take (length rets) (drop i rs)) \<Longrightarrow> fst (forEach_resolve rs i rets h) ! q = h ! q"
proof (induction rets arbitrary: i h)
  case Nil
  then show ?case by simp
next
  case (Cons ret rets)
  show ?case
  proof (cases "i < length rs")
    case True
    then have d: "drop i rs = rs ! i # drop (Suc i) rs"
      by (simp add: Cons_nth_drop_Suc)
    with Cons.prems have "q \<noteq> rs ! i" and "q \<notin> set (take (length rets) (drop (Suc i) rs))"
      by auto
    then show ?thesis
      using True Cons.IH [of "Suc i"] by (simp add: forEach_resolve_Cons settle_other)
  next
    case False
    then show ?thesis by (simp add: forEach_resolve_past)
  qed
qed

lemma forEach_resolve_other_set:
  "q \<notin> set rs \<Longrightarrow> fst (forEach_resolve rs i rets h) ! q = h ! q"
  by (rule forEach_resolve_other) (auto dest: in_set_takeD in_set_dropD)

lemma forEach_resolve_nth:
  "distinct rs \<Longrightarrow> i + j < length rs \<Longrightarrow> j < length rets \<Longrightarrow> rets ! j \<noteq> Hole \<Longrightarrow>
   rs ! (i + j) < length h \<Longrightarrow> h ! (rs ! (i + j)) = Pending \<Longrightarrow>
   fst (forEach_resolve rs i rets h) ! (rs ! (i + j)) = resolution (rets ! j)"
proof (induction rets arbitrary: i j h)
  case Nil
  then show ?case by simp
next
  case (Cons ret rets)
  show ?case
  proof (cases j)
    case 0
    with Cons.prems show ?thesis
      by (simp add: forEach_resolve_Cons forEach_resolve_settled settle_pending
          resolution_not_pending)
  next
    case (Suc j')
    with Cons.prems have ne: "rs ! (Suc i + j') \<noteq> rs ! i"
      by (simp add: nth_eq_iff_index_eq)
    from Suc Cons.prems have 1: "fst (forEach_resolve rs (Suc i) rets h') !
        (rs ! (Suc i + j')) = resolution (rets ! j')"
      if "h' ! (rs ! (Suc i + j')) = Pending" "length h' = length h" for h'
      using that by (intro Cons.IH) simp_all
    from Suc Cons.prems ne have 2: "settle (rs ! i) s h ! (rs ! (Suc i + j')) = Pending" for s
      by (simp add: settle_other)
    from Suc Cons.prems have 3: "h ! (rs ! (Suc i + j')) = Pending" by simp
    from Suc Cons.prems have "i < length rs" by simp
    with 1 [OF 2] 1 [OF 3] Suc show ?thesis by (simp add: forEach_resolve_Cons)
  qed
qed

lemma forEach_resolve_past_ok:
  "length rs \<le> i \<Longrightarrow>
   snd (forEach_resolve rs i rets h) = (\<forall>j < length rets. rets ! j = Hole)"
proof (induction rets arbitrary: i)
  case Nil
  then show ?case by simp
next
  case (Cons r rets)
  have "(\<forall>j < length (r # rets). (r # rets) ! j = Hole) \<longleftrightarrow>
        r = Hole \<and> (\<forall>j < length rets. rets ! j = Hole)"
    by (auto simp: less_Suc_eq_0_disj)
  moreover from Cons.prems have "length rs \<le> Suc i" by simp
  then have "snd (forEach_resolve rs (Suc i) rets h) = (\<forall>j < length rets. rets ! j = Hole)"
    by (rule Cons.IH)
  ultimately show ?case using Cons.prems by (simp add: forEach_resolve_Cons)
qed

lemma forEach_resolve_ok:
  "i \<le> length rs \<Longrightarrow>
   snd (forEach_resolve rs i rets h) = (\<forall>j < length rets. rets ! j \<noteq> Hole \<longrightarrow> i + j < length rs)"
proof (induction rets arbitrary: i h)
  case Nil
  then show ?case by simp
next
  case (Cons ret rets)
  have split: "(\<forall>j < length (ret # rets). (ret # rets) ! j \<noteq> Hole \<longrightarrow> i + j < length rs) \<longleftrightarrow>
      (ret \<noteq> Hole \<longrightarrow> i < length rs) \<and>
      (\<forall>j < length rets. rets ! j \<noteq> Hole \<longrightarrow> Suc i + j < length rs)"
    by (auto simp: less_Suc_eq_0_disj)
  show ?case
  proof (cases "i < length rs")
    case True
    then have "Suc i \<le> length rs" by simp
    from Cons.IH [OF this] True show ?thesis
      unfolding split by (simp add: forEach_resolve_Cons)
  next
    case False
    with Cons.prems have i: "i = length rs" by simp
    have "snd (forEach_resolve rs (Suc i) rets h) = (\<forall>j < length rets. rets ! j = Hole)"
      using i by (intro forEach_resolve_past_ok) simp
    with False i show ?thesis
      unfolding split by (auto simp: forEach_resolve_Cons)
  qed
qed


lemma set_left_pending: "set (left_pending rs rets) \<subseteq> set rs"
  by (induction rs rets rule: left_pending.induct) auto

lemma distinct_left_pending: "distinct rs \<Longrightarrow> distinct (left_pending rs rets)"
proof (induction rs rets rule: left_pending.induct)
  case (3 r rs rets)
  then show ?case using set_left_pending [of rs rets] by auto
qed auto

lemma left_pending_Cons:
  "left_pending (r # rs) (ret # rets) =
     (if ret = Hole then r # left_pending rs rets else left_pending rs rets)"
  by (cases ret) simp_all

lemma left_pending_nth:
  "i < length rs \<Longrightarrow> length rets \<le> i \<or> rets ! i = Hole \<Longrightarrow> rs ! i \<in> set (left_pending rs rets)"
proof (induction rs arbitrary: rets i)
  case Nil
  then show ?case by simp
next
  case (Cons r rs)
  show ?case
  proof (cases rets)
    case Nil
    from Cons.prems(1) have "(r # rs) ! i \<in> set (r # rs)" by (intro nth_mem) simp
    with Nil show ?thesis by simp
  next
    case rets: (Cons ret rets')
    show ?thesis
    proof (cases i)
      case 0
      with Cons.prems rets show ?thesis by (simp add: left_pending_Cons)
    next
      case (Suc i')
      with Cons.prems rets have "rs ! i' \<in> set (left_pending rs rets')"
        by (intro Cons.IH) auto
      with Suc rets show ?thesis by (simp add: left_pending_Cons)
    qed
  qed
qed

lemma forEach_resolve_left:
  "distinct rs \<Longrightarrow> p \<in> set (left_pending (drop i rs) rets) \<Longrightarrow>
   fst (forEach_resolve rs i rets h) ! p = h ! p"
proof (induction rets arbitrary: i h)
  case Nil
  then show ?case by simp
next
  case (Cons ret rets)
  show ?case
  proof (cases "i < length rs")
    case False
    then show ?thesis by (simp add: forEach_resolve_past)
  next
    case True
    then have d: "drop i rs = rs ! i # drop (Suc i) rs"
      by (simp add: Cons_nth_drop_Suc)
    from Cons.prems(1) True have notin: "rs ! i \<notin> set (drop (Suc i) rs)"
      by (metis d distinct.simps(2) distinct_drop)
    show ?thesis
    proof (cases "p \<in> set (left_pending (drop (Suc i) rs) rets)")
      case in_rest: True
      then have "p \<in> set (drop (Suc i) rs)" using set_left_pending by blast
      with notin have "p \<noteq> rs ! i" by auto
      with Cons.IH [OF Cons.prems(1) in_rest] True show ?thesis
        by (simp add: forEach_resolve_Cons settle_other)
    next
      case False
      with Cons.prems(2) have p: "p = rs ! i" and hole: "ret = Hole"
        unfolding d by (auto simp: left_pending_Cons split: if_splits)
      from notin have "rs ! i \<notin> set (take (length rets) (drop (Suc i) rs))"
        by (auto dest: in_set_takeD)
      then show ?thesis
        using p hole by (simp add: forEach_resolve_other)
    qed
  qed
qed

lemma nth_in_drop: "n \<le> i \<Longrightarrow> i < length xs \<Longrightarrow> xs ! i \<in> set (drop n xs)"
proof -
  assume "n \<le> i" "i < length xs"
  then have "drop n xs ! (i - n) = xs ! i" "i - n < length (drop n xs)" by simp_all
  then show ?thesis by (metis nth_mem)
qed

lemma length_forEach_reject [simp]: "length (forEach_reject e rjs h) = length h"
  by (induction rjs arbitrary: h) (auto simp: forEach_reject_def)

lemma forEach_reject_Cons:
  "forEach_reject e (r # rjs) h = forEach_reject e rjs (settle r (Rejected e) h)"
  by (simp add: forEach_reject_def)

lemma forEach_reject_Nil [simp]: "forEach_reject e [] h = h"
  by (simp add: forEach_reject_def)

lemma forEach_reject_settled:
  "h ! q \<noteq> Pending \<Longrightarrow> forEach_reject e rjs h ! q = h ! q"
  by (induction rjs arbitrary: h) (auto simp: forEach_reject_Cons settle_settled)

lemma forEach_reject_other:
  "q \<notin> set rjs \<Longrightarrow> forEach_reject e rjs h ! q = h ! q"
  by (induction rjs arbitrary: h) (auto simp: forEach_reject_Cons settle_other)

lemma forEach_reject_pending:
  "q \<in> set rjs \<Longrightarrow> q < length h \<Longrightarrow> h ! q = Pending \<Longrightarrow>
   forEach_reject e rjs h ! q = Rejected e"
proof (induction rjs arbitrary: h)
  case Nil
  then show ?case by simp
next
  case (Cons r rjs)
  show ?case
  proof (cases "q = r")
    case True
    with Cons.prems show ?thesis
      by (simp add: forEach_reject_Cons forEach_reject_settled settle_pending)
  next
    case False
    with Cons show ?thesis
      by (simp add: forEach_reject_Cons settle_other)
  qed
qed


subsection \<open>load and runs of load\<close>

lemma update_absent: "k \<notin> fst ` set xs \<Longrightarrow> AList.update k v xs = xs @ [(k, v)]"
  by (induction xs) auto

lemma map_of_update_other:
  "k' \<noteq> k \<Longrightarrow> map_of (AList.update k' v al) k = map_of al k"
  by (simp add: update_conv')

lemma load_cached: "map_of (cachePromises (dl w)) k = Some p \<Longrightarrow> load k w = (p, w)"
  by (simp add: load_def)

lemma load_fresh:
  "map_of (cachePromises (dl w)) k = None \<Longrightarrow>
   load k w =
     (length (heap w),
      w\<lparr>dl := (dl w)\<lparr>resolveArr := resolveArr (dl w) @ [length (heap w)],
                       rejectArr := rejectArr (dl w) @ [length (heap w)],
                       data := data (dl w) @ [k],
                       isFlushPending := True,
                       cachePromises := AList.update k (length (heap w)) (cachePromises (dl w))\<rparr>,
        heap := heap w @ [Pending],
        microtasks := (if isFlushPending (dl w) then microtasks w else microtasks w @ [FlushJobs])\<rparr>)"
  by (simp add: load_def Let_def)

lemma load_caches: "map_of (cachePromises (dl (snd (load k w)))) k = Some (fst (load k w))"
proof (cases "map_of (cachePromises (dl w)) k")
  case None
  then show ?thesis by (simp add: load_fresh update_conv')
next
  case (Some q)
  then show ?thesis by (simp add: load_cached)
qed

lemma load_keeps_cached:
  "map_of (cachePromises (dl w)) k = Some p \<Longrightarrow>
   map_of (cachePromises (dl (snd (load k' w)))) k = Some p"
proof (cases "map_of (cachePromises (dl w)) k'")
  case None
  assume "map_of (cachePromises (dl w)) k = Some p"
  with None have "k' \<noteq> k" by auto
  with None \<open>map_of (cachePromises (dl w)) k = Some p\<close> show ?thesis
    by (simp add: load_fresh map_of_update_other)
next
  case (Some q)
  assume "map_of (cachePromises (dl w)) k = Some p"
  with Some show ?thesis by (simp add: load_cached)
qed

lemma loads_Nil [simp]: "loads [] w = w"
  by (simp add: loads_def)

lemma loads_snoc: "loads (ks @ [k]) w = snd (load k (loads ks w))"
  by (simp add: loads_def)

lemma loads_Cons: "loads (k # ks) w = loads ks (snd (load k w))"
  by (simp add: loads_def)

lemma loads_append: "loads (ks @ ks') w = loads ks' (loads ks w)"
  by (simp add: loads_def)

lemma loads_keep_cached:
  "map_of (cachePromises (dl w)) k = Some p \<Longrightarrow>
   map_of (cachePromises (dl (loads ks w))) k = Some p"
  by (induction ks arbitrary: w) (simp_all add: loads_Cons load_keeps_cached)

lemma calls_load [simp]: "calls (snd (load k w)) = calls w"
  by (simp add: load_def Let_def split: option.split)

lemma calls_loads [simp]: "calls (loads ks w) = calls w"
  by (induction ks arbitrary: w) (simp_all add: loads_Cons)

lemma batch_of_snoc_old: "k \<in> set ks \<Longrightarrow> batch_of (ks @ [k]) w = batch_of ks w"
proof -
  assume "k \<in> set ks"
  then have "ks \<noteq> []" by auto
  with \<open>k \<in> set ks\<close> show ?thesis by (simp add: batch_of_def first_seen_snoc)
qed

lemma batch_of_snoc_new:
  "k \<notin> set ks \<Longrightarrow> snd (load k (batch_of ks w)) = batch_of (ks @ [k]) w"
proof -
  assume k: "k \<notin> set ks"
  let ?n = "length (heap w)"
  let ?m = "length (first_seen ks)"
  have none: "map_of (cachePromises (dl (batch_of ks w))) k = None"
    using k by (simp add: batch_of_def Let_def map_of_zip_is_None)
  have "k \<notin> fst ` set (zip (first_seen ks) [?n..<?n + ?m])"
    using k by (auto dest: set_zip_leftD)
  then have upd: "AList.update k (?n + ?m) (zip (first_seen ks) [?n..<?n + ?m]) =
      zip (first_seen ks) [?n..<?n + ?m] @ [(k, ?n + ?m)]"
    by (rule update_absent)
  show ?thesis
    unfolding load_fresh [OF none]
    using k upd
    by (simp add: batch_of_def Let_def first_seen_snoc replicate_append_same)
qed

lemma loads_idle: "dl w = new_dataloader \<Longrightarrow> loads ks w = batch_of ks w"
proof (induction ks rule: rev_induct)
  case Nil
  then show ?case by (simp add: batch_of_def new_dataloader_def)
next
  case (snoc k ks)
  then have IH: "loads ks w = batch_of ks w" by simp
  show ?case
  proof (cases "k \<in> set ks")
    case True
    then have "map_of (cachePromises (dl (batch_of ks w))) k \<noteq> None"
      by (simp add: batch_of_def Let_def map_of_zip_is_None)
    then obtain p where "map_of (cachePromises (dl (batch_of ks w))) k = Some p"
      by blast
    then have "load k (batch_of ks w) = (p, batch_of ks w)" by (rule load_cached)
    with True IH show ?thesis
      by (simp add: loads_snoc batch_of_snoc_old)
  next
    case False
    with IH show ?thesis
      by (simp add: loads_snoc batch_of_snoc_new)
  qed
qed

lemma load_batch_nth:
  assumes "dl w = new_dataloader" and "i < length (first_seen ks)"
  shows "fst (load (first_seen ks ! i) (loads ks w)) = resolveArr (dl (loads ks w)) ! i"
proof -
  let ?n = "length (heap w)"
  let ?m = "length (first_seen ks)"
  have "map_of (zip (first_seen ks) [?n..<?n + ?m]) (first_seen ks ! i) = Some ([?n..<?n + ?m] ! i)"
    using assms(2) by (intro map_of_zip_nth) simp_all
  then have "map_of (cachePromises (dl (batch_of ks w))) (first_seen ks ! i) =
             Some (resolveArr (dl (batch_of ks w)) ! i)"
    by (simp add: batch_of_def Let_def)
  then have "load (first_seen ks ! i) (batch_of ks w) =
             (resolveArr (dl (batch_of ks w)) ! i, batch_of ks w)"
    by (rule load_cached)
  with assms(1) show ?thesis by (simp add: loads_idle)
qed

subsection \<open>flushJobs and the microtask queue\<close>

lemma reset_fields:
  "(d::'k dataloader)\<lparr>cachePromises := [], rejectArr := [], resolveArr := [], data := [],
      isFlushPending := False\<rparr> = new_dataloader"
  by (simp add: new_dataloader_def)

lemma flushJobs_nonempty:
  "data (dl w) \<noteq> [] \<Longrightarrow>
   flushJobs loaderFn w =
     (let w2 = loads (fst (loaderFn (data (dl w))))
                 (w\<lparr>dl := new_dataloader, calls := calls w @ [data (dl w)]\<rparr>)
      in case snd (loaderFn (data (dl w))) of
           Throws e \<Rightarrow> w2\<lparr>uncaught := uncaught w2 @ [e]\<rparr>
         | Returns rets \<Rightarrow>
             w2\<lparr>microtasks := microtasks w2 @
                   [ThenReaction (Fulfils rets) (resolveArr (dl w)) (rejectArr (dl w))]\<rparr>
         | ReturnsPromise s \<Rightarrow>
             w2\<lparr>inflight := inflight w2 @ [(s, resolveArr (dl w), rejectArr (dl w))]\<rparr>)"
  by (simp add: flushJobs_def Let_def reset_fields split: loader_result.split)

lemma calls_flushJobs:
  "data (dl w) \<noteq> [] \<Longrightarrow> calls (flushJobs loaderFn w) = calls w @ [data (dl w)]"
  by (simp add: flushJobs_def Let_def split: loader_result.split)

lemma dl_flushJobs:
  "data (dl w) \<noteq> [] \<Longrightarrow>
   dl (flushJobs loaderFn w) = dl (loads (fst (loaderFn (data (dl w)))) (w\<lparr>dl := new_dataloader\<rparr>))"
  by (simp add: flushJobs_nonempty Let_def loads_idle batch_of_def split: loader_result.split)

lemma heap_flushJobs:
  "heap (flushJobs loaderFn w) = heap (loads (if data (dl w) = [] then [] else fst (loaderFn (data (dl w)))) (w\<lparr>dl := new_dataloader\<rparr>))"
  by (simp add: flushJobs_def Let_def loads_idle batch_of_def reset_fields split: loader_result.split)

lemma exec_then_fulfils:
  "exec_task loaderFn (ThenReaction (Fulfils rets) rs rjs) w =
     w\<lparr>heap := fst (forEach_resolve rs 0 rets (heap w)),
       microtasks := (if snd (forEach_resolve rs 0 rets (heap w)) then microtasks w
                      else microtasks w @ [CatchReaction TypeError rjs])\<rparr>"
  by (simp split: prod.split bool.split)

lemma run_then_fulfils:
  "microtasks w = ThenReaction (Fulfils rets) rs rjs # q \<Longrightarrow>
   run_microtask loaderFn w =
     w\<lparr>microtasks := (if snd (forEach_resolve rs 0 rets (heap w)) then q
                       else q @ [CatchReaction TypeError rjs]),
       heap := fst (forEach_resolve rs 0 rets (heap w))\<rparr>"
  by (simp add: run_microtask_def split: prod.split bool.split)

section \<open>Invariants\<close>

subsection \<open>The invariant of scheduling\<close>

lemma sched_inv_load: "sched_inv w \<Longrightarrow> sched_inv (snd (load k w))"
proof (cases "map_of (cachePromises (dl w)) k")
  case None
  assume inv: "sched_inv w"
  from None have "k \<notin> fst ` set (cachePromises (dl w))"
    by (simp add: map_of_eq_None_iff)
  then have "AList.update k (length (heap w)) (cachePromises (dl w)) =
             cachePromises (dl w) @ [(k, length (heap w))]"
    by (rule update_absent)
  moreover have "k \<notin> set (data (dl w))"
  proof -
    from inv have "data (dl w) = map fst (cachePromises (dl w))" by (simp add: sched_inv_def)
    with \<open>k \<notin> fst ` set (cachePromises (dl w))\<close> show ?thesis by simp
  qed
  ultimately show ?thesis
    using inv by (simp add: load_fresh [OF None] sched_inv_def)
next
  case (Some p)
  assume "sched_inv w"
  with Some show ?thesis by (simp add: load_cached)
qed

lemma sched_inv_loads: "sched_inv w \<Longrightarrow> sched_inv (loads ks w)"
  by (induction ks arbitrary: w) (simp_all add: loads_Cons sched_inv_load)

lemma sched_inv_flushJobs:
  assumes "count_list (microtasks w) FlushJobs = 0"
    and "map fst (cachePromises (dl w)) = data (dl w)"
    and "map snd (cachePromises (dl w)) = resolveArr (dl w)"
  shows "sched_inv (flushJobs loaderFn w)"
proof (cases "data (dl w) = []")
  case True
  with assms show ?thesis by (simp add: flushJobs_def sched_inv_def)
next
  case False
  let ?w1 = "w\<lparr>dl := new_dataloader, calls := calls w @ [data (dl w)]\<rparr>"
  from assms(1) have "sched_inv ?w1" by (simp add: sched_inv_def new_dataloader_def)
  then have "sched_inv (loads (fst (loaderFn (data (dl w)))) ?w1)" by (rule sched_inv_loads)
  then show ?thesis
    using False by (simp add: flushJobs_nonempty Let_def sched_inv_def split: loader_result.split)
qed

lemma sched_inv_exec_other:
  "sched_inv w \<Longrightarrow> t \<noteq> FlushJobs \<Longrightarrow> sched_inv (exec_task loaderFn t w)"
  by (cases "(loaderFn, t, w)" rule: exec_task.cases)
     (auto simp: sched_inv_def split: prod.split bool.split)

lemma sched_inv_run_microtask: "sched_inv w \<Longrightarrow> sched_inv (run_microtask loaderFn w)"
proof (cases "microtasks w")
  case Nil
  assume "sched_inv w"
  with Nil show ?thesis by (simp add: run_microtask_def)
next
  case (Cons t ts)
  assume inv: "sched_inv w"
  show ?thesis
  proof (cases "t = FlushJobs")
    case True
    with inv Cons have "count_list (microtasks (w\<lparr>microtasks := ts\<rparr>)) FlushJobs = 0"
      and "map fst (cachePromises (dl (w\<lparr>microtasks := ts\<rparr>))) = data (dl (w\<lparr>microtasks := ts\<rparr>))"
      and "map snd (cachePromises (dl (w\<lparr>microtasks := ts\<rparr>))) =
           resolveArr (dl (w\<lparr>microtasks := ts\<rparr>))"
      by (auto simp: sched_inv_def split: if_splits)
    then have "sched_inv (flushJobs loaderFn (w\<lparr>microtasks := ts\<rparr>))"
      by (rule sched_inv_flushJobs)
    with True Cons show ?thesis by (simp add: run_microtask_def)
  next
    case False
    with inv Cons have "sched_inv (w\<lparr>microtasks := ts\<rparr>)" by (simp add: sched_inv_def)
    with False have "sched_inv (exec_task loaderFn t (w\<lparr>microtasks := ts\<rparr>))"
      by (intro sched_inv_exec_other)
    with Cons show ?thesis by (simp add: run_microtask_def)
  qed
qed

lemma sched_inv_loader_settles: "sched_inv w \<Longrightarrow> sched_inv (loader_settles i w)"
  by (auto simp: loader_settles_def sched_inv_def split: prod.split option.split)

lemma sched_inv_new_world: "sched_inv new_world"
  by (simp add: sched_inv_def new_world_def new_dataloader_def)

lemma sched_inv_step: "sched_inv w \<Longrightarrow> sched_inv (step ev w)"
proof (cases ev)
  case (Adopts p)
  assume "sched_inv w"
  with Adopts show ?thesis by (simp add: sched_inv_def)
qed (simp_all add: sched_inv_load sched_inv_run_microtask sched_inv_loader_settles)

lemma reachable_sched_inv: "reachable w \<Longrightarrow> sched_inv w"
  by (induction rule: reachable.induct) (simp_all add: sched_inv_new_world sched_inv_step)

lemma data_load:
  assumes "sched_inv w"
  shows "data (dl (snd (load k w))) =
           (if k \<in> set (data (dl w)) then data (dl w) else data (dl w) @ [k])"
proof (cases "map_of (cachePromises (dl w)) k")
  case None
  then have "k \<notin> fst ` set (cachePromises (dl w))" by (simp add: map_of_eq_None_iff)
  moreover from assms have "data (dl w) = map fst (cachePromises (dl w))"
    by (simp add: sched_inv_def)
  ultimately have "k \<notin> set (data (dl w))" by simp
  with None show ?thesis by (simp add: load_fresh)
next
  case (Some p)
  then have "k \<in> fst ` set (cachePromises (dl w))"
    by (metis map_of_eq_None_iff option.distinct(1))
  moreover from assms have "data (dl w) = map fst (cachePromises (dl w))"
    by (simp add: sched_inv_def)
  ultimately have "k \<in> set (data (dl w))" by simp
  with Some show ?thesis by (simp add: load_cached)
qed

lemma data_loads:
  assumes "sched_inv w"
  shows "data (dl (loads ks w)) = first_seen (data (dl w) @ ks)"
proof (induction ks rule: rev_induct)
  case Nil
  from assms have "distinct (data (dl w))" by (simp add: sched_inv_def)
  then show ?case by (simp add: first_seen_distinct_id)
next
  case (snoc k ks)
  from assms have "sched_inv (loads ks w)" by (rule sched_inv_loads)
  from data_load [OF this, of k] snoc show ?case
    using first_seen_snoc [of "data (dl w) @ ks" k] by (simp add: loads_snoc)
qed

lemma cached_nth:
  assumes "sched_inv w" and "i < length (data (dl w))"
  shows "map_of (cachePromises (dl w)) (data (dl w) ! i) = Some (resolveArr (dl w) ! i)"
proof -
  let ?c = "cachePromises (dl w)"
  from assms(1) have f: "map fst ?c = data (dl w)" and s: "map snd ?c = resolveArr (dl w)"
    and d: "distinct (data (dl w))"
    by (simp_all add: sched_inv_def)
  have z: "?c = zip (data (dl w)) (resolveArr (dl w))"
    unfolding f [symmetric] s [symmetric] by (simp add: zip_map_fst_snd)
  from f s have l: "length (data (dl w)) = length (resolveArr (dl w))"
    by (metis length_map)
  from l d assms(2) have "map_of (zip (data (dl w)) (resolveArr (dl w))) (data (dl w) ! i) =
      Some (resolveArr (dl w) ! i)"
    by (intro map_of_zip_nth) simp_all
  with z show ?thesis by simp
qed

subsection \<open>No call of the loader function with an empty list\<close>

lemma no_empty_call_flushJobs:
  "[] \<notin> set (calls w) \<Longrightarrow> [] \<notin> set (calls (flushJobs loaderFn w))"
  by (cases "data (dl w) = []") (simp_all add: calls_flushJobs, simp add: flushJobs_def)

lemma no_empty_call_exec_task:
  "[] \<notin> set (calls w) \<Longrightarrow> [] \<notin> set (calls (exec_task loaderFn t w))"
  by (cases "(loaderFn, t, w)" rule: exec_task.cases)
     (auto simp: no_empty_call_flushJobs split: prod.split bool.split)

lemma no_empty_call_step:
  "[] \<notin> set (calls w) \<Longrightarrow> [] \<notin> set (calls (step ev w))"
proof (cases ev)
  case (Load k)
  assume "[] \<notin> set (calls w)"
  with Load show ?thesis by simp
next
  case Microtask
  assume "[] \<notin> set (calls w)"
  then have "[] \<notin> set (calls (w\<lparr>microtasks := ts\<rparr>))" for ts by simp
  then show ?thesis
    using Microtask \<open>[] \<notin> set (calls w)\<close>
    by (simp add: run_microtask_def no_empty_call_exec_task split: list.split)
next
  case (Settles i)
  assume "[] \<notin> set (calls w)"
  with Settles show ?thesis
    by (auto simp: loader_settles_def split: prod.split option.split)
next
  case (Adopts p)
  assume "[] \<notin> set (calls w)"
  with Adopts show ?thesis by simp
qed

subsection \<open>The invariant of the Promise store\<close>

lemma tasks_pids_simps [simp]:
  "tasks_pids [] = []"
  "tasks_pids (t # q) = reaction_pids t @ tasks_pids q"
  "tasks_pids (q @ q') = tasks_pids q @ tasks_pids q'"
  by (simp_all add: tasks_pids_def)

lemma inflight_pids_simps [simp]:
  "inflight_pids [] = []"
  "inflight_pids (e # fl) = fst (snd e) @ inflight_pids fl"
  "inflight_pids (fl @ fl') = inflight_pids fl @ inflight_pids fl'"
  by (simp_all add: inflight_pids_def)

lemma task_ok_mono:
  "task_ok n held t \<Longrightarrow> n \<le> n' \<Longrightarrow> set held' \<subseteq> set held \<union> {p. n \<le> p} \<Longrightarrow>
   task_ok n' held' t"
  by (cases "(n, held, t)" rule: task_ok.cases) fastforce+

lemma heap_inv_load: "heap_inv xs w \<Longrightarrow> heap_inv xs (snd (load k w))"
proof (cases "map_of (cachePromises (dl w)) k")
  case (Some p)
  assume "heap_inv xs w"
  with Some show ?thesis by (simp add: load_cached)
next
  case None
  assume inv: "heap_inv xs w"
  let ?n = "length (heap w)"
  let ?w' = "snd (load k w)"
  define X where "X = tasks_pids (microtasks w) @ inflight_pids (inflight w)"
  have own0: "owned w = resolveArr (dl w) @ X" by (simp add: owned_def X_def)
  have own: "owned ?w' = (resolveArr (dl w) @ [?n]) @ X"
    by (simp add: load_fresh [OF None] owned_def X_def)
  have hp: "heap ?w' = heap w @ [Pending]" by (simp add: load_fresh [OF None])
  from inv have d: "distinct (xs @ owned w)"
    and pe: "\<forall>p \<in> set (xs @ owned w). p < ?n \<and> heap w ! p = Pending"
    by (simp_all add: heap_inv_def)
  from pe have fresh: "?n \<notin> set (xs @ owned w)" by auto
  have 1: "distinct (xs @ owned ?w')"
    using d fresh unfolding own own0 by auto
  have 2: "\<forall>p \<in> set (xs @ owned ?w'). p < length (heap ?w') \<and> heap ?w' ! p = Pending"
  proof
    fix p assume "p \<in> set (xs @ owned ?w')"
    then consider "p = ?n" | "p \<in> set (xs @ owned w)" unfolding own own0 by auto
    then show "p < length (heap ?w') \<and> heap ?w' ! p = Pending"
    proof cases
      case 1
      then show ?thesis by (simp add: hp)
    next
      case 2
      with pe have "p < ?n \<and> heap w ! p = Pending" by blast
      then show ?thesis by (simp add: hp nth_append)
    qed
  qed
  have 3: "rejectArr (dl ?w') = resolveArr (dl ?w')"
    using inv by (simp add: load_fresh [OF None] heap_inv_def)
  have 4: "\<forall>t \<in> set (microtasks ?w'). task_ok (length (heap ?w')) (xs @ owned ?w') t"
  proof
    fix t assume "t \<in> set (microtasks ?w')"
    then have "t = FlushJobs \<or> t \<in> set (microtasks w)"
      by (auto simp: load_fresh [OF None] split: if_splits)
    then show "task_ok (length (heap ?w')) (xs @ owned ?w') t"
    proof
      assume "t = FlushJobs" then show ?thesis by simp
    next
      assume "t \<in> set (microtasks w)"
      with inv have "task_ok ?n (xs @ owned w) t" by (simp add: heap_inv_def)
      then show ?thesis
      proof (rule task_ok_mono)
        show "?n \<le> length (heap ?w')" by (simp add: hp)
        show "set (xs @ owned ?w') \<subseteq> set (xs @ owned w) \<union> {p. ?n \<le> p}"
          unfolding own own0 by auto
      qed
    qed
  qed
  have 5: "\<forall>e \<in> set (inflight ?w'). snd (snd e) = fst (snd e)"
    using inv by (simp add: load_fresh [OF None] heap_inv_def)
  from 1 2 3 4 5 show ?thesis unfolding heap_inv_def by blast
qed

lemma heap_inv_loads: "heap_inv xs w \<Longrightarrow> heap_inv xs (loads ks w)"
  by (induction ks arbitrary: w) (simp_all add: loads_Cons heap_inv_load)

lemma heap_inv_transfer:
  assumes inv: "heap_inv xs w"
    and sub: "set (ys @ owned w') \<subseteq> set (xs @ owned w)"
    and dist: "distinct (ys @ owned w')"
    and len: "length (heap w) \<le> length (heap w')"
    and same: "\<And>p. p \<in> set (ys @ owned w') \<Longrightarrow> heap w' ! p = heap w ! p"
    and rej: "rejectArr (dl w') = resolveArr (dl w')"
    and tasks: "\<And>t. t \<in> set (microtasks w') \<Longrightarrow>
                  t \<in> set (microtasks w) \<or> task_ok (length (heap w')) (ys @ owned w') t"
    and infl: "\<And>e. e \<in> set (inflight w') \<Longrightarrow> e \<in> set (inflight w) \<or> snd (snd e) = fst (snd e)"
  shows "heap_inv ys w'"
proof -
  have 2: "\<forall>p \<in> set (ys @ owned w'). p < length (heap w') \<and> heap w' ! p = Pending"
  proof
    fix p assume p: "p \<in> set (ys @ owned w')"
    with sub have "p \<in> set (xs @ owned w)" by blast
    with inv have "p < length (heap w) \<and> heap w ! p = Pending" by (simp add: heap_inv_def)
    with len same [OF p] show "p < length (heap w') \<and> heap w' ! p = Pending" by simp
  qed
  have 4: "\<forall>t \<in> set (microtasks w'). task_ok (length (heap w')) (ys @ owned w') t"
  proof
    fix t assume "t \<in> set (microtasks w')"
    then have "t \<in> set (microtasks w) \<or> task_ok (length (heap w')) (ys @ owned w') t"
      by (rule tasks)
    then show "task_ok (length (heap w')) (ys @ owned w') t"
    proof
      assume "t \<in> set (microtasks w)"
      with inv have "task_ok (length (heap w)) (xs @ owned w) t" by (simp add: heap_inv_def)
      then show ?thesis using len
      proof (rule task_ok_mono)
        from sub show "set (ys @ owned w') \<subseteq> set (xs @ owned w) \<union> {p. length (heap w) \<le> p}"
          by blast
      qed
    qed
  qed
  have 5: "\<forall>e \<in> set (inflight w'). snd (snd e) = fst (snd e)"
  proof
    fix e assume "e \<in> set (inflight w')"
    then have "e \<in> set (inflight w) \<or> snd (snd e) = fst (snd e)" by (rule infl)
    then show "snd (snd e) = fst (snd e)"
    proof
      assume "e \<in> set (inflight w)"
      with inv show ?thesis by (simp add: heap_inv_def)
    qed
  qed
  from dist 2 rej 4 5 show ?thesis unfolding heap_inv_def by blast
qed

lemma heap_inv_weaken: "heap_inv (xs @ ys) w \<Longrightarrow> heap_inv xs w"
  by (rule heap_inv_transfer [where w = w and xs = "xs @ ys"]) (auto simp: heap_inv_def)

lemma heap_inv_flushJobs:
  assumes inv: "heap_inv xs w"
  shows "heap_inv xs (flushJobs loaderFn w)"
proof (cases "data (dl w) = []")
  case True
  have "heap_inv xs (w\<lparr>dl := (dl w)\<lparr>isFlushPending := False\<rparr>\<rparr>)"
    using inv by (simp add: heap_inv_def owned_def)
  with True show ?thesis by (simp add: flushJobs_def)
next
  case False
  let ?R = "resolveArr (dl w)"
  let ?w1 = "w\<lparr>dl := new_dataloader, calls := calls w @ [data (dl w)]\<rparr>"
  let ?w2 = "loads (fst (loaderFn (data (dl w)))) ?w1"
  from inv have rj: "rejectArr (dl w) = ?R" by (simp add: heap_inv_def)
  have "heap_inv (xs @ ?R) ?w1"
    using inv by (simp add: heap_inv_def owned_def new_dataloader_def)
  then have inv2: "heap_inv (xs @ ?R) ?w2" by (rule heap_inv_loads)
  then have rj2: "rejectArr (dl ?w2) = resolveArr (dl ?w2)" by (simp add: heap_inv_def)
  define A where "A = resolveArr (dl ?w2)"
  define B where "B = tasks_pids (microtasks ?w2)"
  define C where "C = inflight_pids (inflight ?w2)"
  have own2: "owned ?w2 = A @ B @ C" by (simp add: owned_def A_def B_def C_def)
  from inv2 have d2: "distinct ((xs @ ?R) @ A @ B @ C)" by (simp add: heap_inv_def own2)
  show ?thesis
  proof (cases "snd (loaderFn (data (dl w)))")
    case (Throws e)
    let ?w3 = "?w2\<lparr>uncaught := uncaught ?w2 @ [e]\<rparr>"
    have own3: "owned ?w3 = A @ B @ C" by (simp add: owned_def A_def B_def C_def)
    have "heap_inv xs ?w3"
      using inv2
    proof (rule heap_inv_transfer)
      show "set (xs @ owned ?w3) \<subseteq> set ((xs @ ?R) @ owned ?w2)" unfolding own3 own2 by auto
      show "distinct (xs @ owned ?w3)" using d2 unfolding own3 by auto
      show "rejectArr (dl ?w3) = resolveArr (dl ?w3)" using rj2 by simp
    qed simp_all
    with False Throws show ?thesis by (simp add: flushJobs_nonempty Let_def)
  next
    case (Returns rets)
    let ?w3 = "?w2\<lparr>microtasks := microtasks ?w2 @ [ThenReaction (Fulfils rets) ?R ?R]\<rparr>"
    have own3: "owned ?w3 = A @ (B @ ?R) @ C" by (simp add: owned_def A_def B_def C_def)
    have "heap_inv xs ?w3"
      using inv2
    proof (rule heap_inv_transfer)
      show "set (xs @ owned ?w3) \<subseteq> set ((xs @ ?R) @ owned ?w2)" unfolding own3 own2 by auto
      show "distinct (xs @ owned ?w3)" using d2 unfolding own3 by auto
      show "rejectArr (dl ?w3) = resolveArr (dl ?w3)" using rj2 by simp
      show "t \<in> set (microtasks ?w2) \<or> task_ok (length (heap ?w3)) (xs @ owned ?w3) t"
        if "t \<in> set (microtasks ?w3)" for t
        using that by auto
    qed simp_all
    with False Returns rj show ?thesis by (simp add: flushJobs_nonempty Let_def)
  next
    case (ReturnsPromise s)
    let ?w3 = "?w2\<lparr>inflight := inflight ?w2 @ [(s, ?R, ?R)]\<rparr>"
    have own3: "owned ?w3 = A @ B @ (C @ ?R)" by (simp add: owned_def A_def B_def C_def)
    have "heap_inv xs ?w3"
      using inv2
    proof (rule heap_inv_transfer)
      show "set (xs @ owned ?w3) \<subseteq> set ((xs @ ?R) @ owned ?w2)" unfolding own3 own2 by auto
      show "distinct (xs @ owned ?w3)" using d2 unfolding own3 by auto
      show "rejectArr (dl ?w3) = resolveArr (dl ?w3)" using rj2 by simp
      show "e \<in> set (inflight ?w2) \<or> snd (snd e) = fst (snd e)" if "e \<in> set (inflight ?w3)" for e
        using that by auto
    qed simp_all
    with False ReturnsPromise rj show ?thesis by (simp add: flushJobs_nonempty Let_def)
  qed
qed

lemma heap_inv_flushJobs_throws:
  assumes inv: "heap_inv xs w" and ne: "data (dl w) \<noteq> []"
    and thr: "snd (loaderFn (data (dl w))) = Throws e"
  shows "heap_inv (xs @ resolveArr (dl w)) (flushJobs loaderFn w)"
proof -
  let ?R = "resolveArr (dl w)"
  let ?w1 = "w\<lparr>dl := new_dataloader, calls := calls w @ [data (dl w)]\<rparr>"
  let ?w2 = "loads (fst (loaderFn (data (dl w)))) ?w1"
  have "heap_inv (xs @ ?R) ?w1"
    using inv by (simp add: heap_inv_def owned_def new_dataloader_def)
  then have "heap_inv (xs @ ?R) ?w2" by (rule heap_inv_loads)
  then have "heap_inv (xs @ ?R) (?w2\<lparr>uncaught := uncaught ?w2 @ [e]\<rparr>)"
    by (simp add: heap_inv_def owned_def)
  with ne thr show ?thesis by (simp add: flushJobs_nonempty Let_def)
qed

lemma heap_inv_pop:
  assumes inv: "heap_inv xs w" and q: "microtasks w = t # ts"
  shows "heap_inv (xs @ reaction_pids t) (w\<lparr>microtasks := ts\<rparr>)"
proof -
  let ?wp = "w\<lparr>microtasks := ts\<rparr>"
  define A where "A = resolveArr (dl w)"
  define B where "B = tasks_pids ts"
  define C where "C = inflight_pids (inflight w)"
  define P where "P = reaction_pids t"
  have own: "owned w = A @ (P @ B) @ C" by (simp add: owned_def q A_def B_def C_def P_def)
  have ownp: "owned ?wp = A @ B @ C" by (simp add: owned_def A_def B_def C_def)
  from inv have d: "distinct (xs @ A @ (P @ B) @ C)" by (simp add: heap_inv_def own)
  show ?thesis
    unfolding P_def [symmetric]
    using inv
  proof (rule heap_inv_transfer)
    show "set ((xs @ P) @ owned ?wp) \<subseteq> set (xs @ owned w)" unfolding own ownp by auto
    show "distinct ((xs @ P) @ owned ?wp)" using d unfolding ownp by auto
    show "rejectArr (dl ?wp) = resolveArr (dl ?wp)" using inv by (simp add: heap_inv_def)
    show "t' \<in> set (microtasks w) \<or> task_ok (length (heap ?wp)) ((xs @ P) @ owned ?wp) t'"
      if "t' \<in> set (microtasks ?wp)" for t'
      using that q by simp
  qed simp_all
qed

lemma heap_inv_then_fulfils:
  assumes inv: "heap_inv (xs @ rs) w"
  shows "heap_inv (if snd (forEach_resolve rs 0 rets (heap w)) then xs @ left_pending rs rets
                   else xs)
           (exec_task loaderFn (ThenReaction (Fulfils rets) rs rs) w)"
proof -
  from inv have d: "distinct ((xs @ rs) @ owned w)"
    and pe: "\<forall>p \<in> set rs. p < length (heap w) \<and> heap w ! p = Pending"
    by (simp_all add: heap_inv_def)
  from d have drs: "distinct rs" by simp
  let ?h = "fst (forEach_resolve rs 0 rets (heap w))"
  define L where "L = left_pending rs rets"
  have Lsub: "set L \<subseteq> set rs" and dL: "distinct L"
    unfolding L_def using drs by (simp_all add: set_left_pending distinct_left_pending)
  show ?thesis
  proof (cases "snd (forEach_resolve rs 0 rets (heap w))")
    case True
    let ?w3 = "w\<lparr>heap := ?h\<rparr>"
    have own3: "owned ?w3 = owned w" by (simp add: owned_def)
    have "heap_inv (xs @ L) ?w3"
      using inv
    proof (rule heap_inv_transfer)
      show "set ((xs @ L) @ owned ?w3) \<subseteq> set ((xs @ rs) @ owned w)"
        unfolding own3 using Lsub by auto
      show "distinct ((xs @ L) @ owned ?w3)"
        unfolding own3 using d dL Lsub by auto
      show "rejectArr (dl ?w3) = resolveArr (dl ?w3)" using inv by (simp add: heap_inv_def)
      show "length (heap w) \<le> length (heap ?w3)" by simp
      show "heap ?w3 ! p = heap w ! p" if "p \<in> set ((xs @ L) @ owned ?w3)" for p
      proof (cases "p \<in> set L")
        case True
        then have "p \<in> set (left_pending (drop 0 rs) rets)" by (simp add: L_def)
        with drs show ?thesis by (simp add: forEach_resolve_left)
      next
        case False
        with that d have "p \<notin> set rs" unfolding own3 by auto
        then show ?thesis by (simp add: forEach_resolve_other_set)
      qed
    qed simp_all
    with True show ?thesis by (simp add: exec_then_fulfils L_def del: exec_task.simps)
  next
    case False
    let ?w3 = "w\<lparr>heap := ?h, microtasks := microtasks w @ [CatchReaction TypeError rs]\<rparr>"
    have own3: "owned ?w3 = owned w" by (simp add: owned_def)
    have "heap_inv xs ?w3"
      using inv
    proof (rule heap_inv_transfer)
      show "set (xs @ owned ?w3) \<subseteq> set ((xs @ rs) @ owned w)" unfolding own3 by auto
      show "distinct (xs @ owned ?w3)" using d unfolding own3 by auto
      show "rejectArr (dl ?w3) = resolveArr (dl ?w3)" using inv by (simp add: heap_inv_def)
      show "length (heap w) \<le> length (heap ?w3)" by simp
      show "heap ?w3 ! p = heap w ! p" if "p \<in> set (xs @ owned ?w3)" for p
      proof -
        from that d have "p \<notin> set rs" unfolding own3 by auto
        then show ?thesis by (simp add: forEach_resolve_other_set)
      qed
      show "t' \<in> set (microtasks w) \<or> task_ok (length (heap ?w3)) (xs @ owned ?w3) t'"
        if "t' \<in> set (microtasks ?w3)" for t'
      proof -
        from pe d have "task_ok (length (heap ?w3)) (xs @ owned ?w3) (CatchReaction TypeError rs)"
          unfolding own3 by auto
        with that show ?thesis by auto
      qed
    qed simp_all
    with False show ?thesis by (simp add: exec_then_fulfils del: exec_task.simps)
  qed
qed

lemma heap_inv_exec_task:
  assumes inv: "heap_inv (xs @ reaction_pids t) w"
    and ok: "task_ok (length (heap w)) (xs @ owned w) t"
  shows "heap_inv xs (exec_task loaderFn t w)"
proof (cases "(loaderFn, t, w)" rule: exec_task.cases)
  case (1 lf w')
  with inv show ?thesis by (simp add: heap_inv_flushJobs)
next
  case (2 lf e rs rjs w')
  then have t: "t = ThenReaction (Rejects e) rs rjs" by simp
  with ok have rjs: "rjs = rs" by simp
  let ?w3 = "w\<lparr>microtasks := microtasks w @ [CatchReaction (Thrown e) rs]\<rparr>"
  define A where "A = resolveArr (dl w)"
  define B where "B = tasks_pids (microtasks w)"
  define C where "C = inflight_pids (inflight w)"
  have own: "owned w = A @ B @ C" by (simp add: owned_def A_def B_def C_def)
  have own3: "owned ?w3 = A @ (B @ rs) @ C" by (simp add: owned_def A_def B_def C_def)
  from inv t have d: "distinct ((xs @ rs) @ A @ B @ C)" by (simp add: heap_inv_def own)
  from inv t have inv': "heap_inv (xs @ rs) w" by simp
  have "heap_inv xs ?w3"
    using inv'
  proof (rule heap_inv_transfer)
    show "set (xs @ owned ?w3) \<subseteq> set ((xs @ rs) @ owned w)" unfolding own3 own by auto
    show "distinct (xs @ owned ?w3)" using d unfolding own3 by auto
    show "rejectArr (dl ?w3) = resolveArr (dl ?w3)" using inv by (simp add: heap_inv_def)
    show "t' \<in> set (microtasks w) \<or> task_ok (length (heap ?w3)) (xs @ owned ?w3) t'"
      if "t' \<in> set (microtasks ?w3)" for t'
      using that by auto
  qed simp_all
  with t rjs show ?thesis by simp
next
  case (3 lf rets rs rjs w')
  then have t: "t = ThenReaction (Fulfils rets) rs rjs" by simp
  with ok have rjs: "rjs = rs" by simp
  from inv t have "heap_inv (xs @ rs) w" by simp
  then have "heap_inv (if snd (forEach_resolve rs 0 rets (heap w))
                       then xs @ left_pending rs rets else xs)
               (exec_task loaderFn (ThenReaction (Fulfils rets) rs rs) w)"
    by (rule heap_inv_then_fulfils)
  then have "heap_inv xs (exec_task loaderFn (ThenReaction (Fulfils rets) rs rs) w)"
    by (cases "snd (forEach_resolve rs 0 rets (heap w))") (auto dest: heap_inv_weaken)
  with t rjs show ?thesis by simp
next
  case (4 lf err rjs w')
  then have t: "t = CatchReaction err rjs" by simp
  let ?w3 = "w\<lparr>heap := forEach_reject err rjs (heap w)\<rparr>"
  have own3: "owned ?w3 = owned w" by (simp add: owned_def)
  show ?thesis
  proof (cases err)
    case TypeError
    with t ok have free: "\<forall>p \<in> set rjs. p \<notin> set (xs @ owned w)" by simp
    from inv t TypeError have inv': "heap_inv xs w" by simp
    have "heap_inv xs ?w3"
      using inv'
    proof (rule heap_inv_transfer)
      show "set (xs @ owned ?w3) \<subseteq> set (xs @ owned w)" unfolding own3 by simp
      show "distinct (xs @ owned ?w3)" using inv' unfolding own3 by (simp add: heap_inv_def)
      show "rejectArr (dl ?w3) = resolveArr (dl ?w3)" using inv by (simp add: heap_inv_def)
      show "heap ?w3 ! p = heap w ! p" if "p \<in> set (xs @ owned ?w3)" for p
      proof -
        from that free have "p \<notin> set rjs" unfolding own3 by auto
        then show ?thesis by (simp add: forEach_reject_other)
      qed
    qed simp_all
    with t show ?thesis by simp
  next
    case (Thrown e)
    with inv t have inv': "heap_inv (xs @ rjs) w" by simp
    then have d: "distinct ((xs @ rjs) @ owned w)" by (simp add: heap_inv_def)
    have "heap_inv xs ?w3"
      using inv'
    proof (rule heap_inv_transfer)
      show "set (xs @ owned ?w3) \<subseteq> set ((xs @ rjs) @ owned w)" unfolding own3 by auto
      show "distinct (xs @ owned ?w3)" using d unfolding own3 by auto
      show "rejectArr (dl ?w3) = resolveArr (dl ?w3)" using inv by (simp add: heap_inv_def)
      show "heap ?w3 ! p = heap w ! p" if "p \<in> set (xs @ owned ?w3)" for p
      proof -
        from that d have "p \<notin> set rjs" unfolding own3 by auto
        then show ?thesis by (simp add: forEach_reject_other)
      qed
    qed simp_all
    with t show ?thesis by simp
  qed
qed

lemma heap_inv_task_ok:
  "heap_inv xs w \<Longrightarrow> t \<in> set (microtasks w) \<Longrightarrow> task_ok (length (heap w)) (xs @ owned w) t"
  by (simp add: heap_inv_def)

lemma owned_pop:
  "microtasks w = t # ts \<Longrightarrow>
   set (xs @ owned w) = set ((xs @ reaction_pids t) @ owned (w\<lparr>microtasks := ts\<rparr>))"
  by (auto simp: owned_def)

lemma heap_inv_run_microtask:
  assumes "heap_inv xs w"
  shows "heap_inv xs (run_microtask loaderFn w)"
proof (cases "microtasks w")
  case Nil
  with assms show ?thesis by (simp add: run_microtask_def)
next
  case (Cons t ts)
  let ?wp = "w\<lparr>microtasks := ts\<rparr>"
  from assms Cons have pop: "heap_inv (xs @ reaction_pids t) ?wp" by (rule heap_inv_pop)
  from assms Cons have "task_ok (length (heap w)) (xs @ owned w) t"
    by (simp add: heap_inv_task_ok)
  then have "task_ok (length (heap ?wp)) (xs @ owned ?wp) t"
  proof (rule task_ok_mono)
    show "set (xs @ owned ?wp) \<subseteq> set (xs @ owned w) \<union> {p. length (heap w) \<le> p}"
      using Cons by (auto simp: owned_def)
  qed simp
  with pop have "heap_inv xs (exec_task loaderFn t ?wp)"
    by (rule heap_inv_exec_task)
  with Cons show ?thesis by (simp add: run_microtask_def)
qed

lemma heap_inv_loader_settles:
  assumes inv: "heap_inv xs w"
  shows "heap_inv xs (loader_settles i w)"
proof (cases "i < length (inflight w)")
  case False
  with inv show ?thesis by (simp add: loader_settles_def)
next
  case True
  obtain so rs rjs where e: "inflight w ! i = (so, rs, rjs)" by (cases "inflight w ! i")
  show ?thesis
  proof (cases so)
    case None
    with True e inv show ?thesis by (simp add: loader_settles_def)
  next
    case (Some s)
    let ?fl = "inflight w"
    have split: "?fl = take i ?fl @ (so, rs, rjs) # drop (Suc i) ?fl"
      using id_take_nth_drop [OF True] unfolding e .
    from True e have "(so, rs, rjs) \<in> set ?fl" by (metis nth_mem)
    with inv have rjs: "rjs = rs" by (auto simp: heap_inv_def)
    let ?w3 = "w\<lparr>inflight := take i ?fl @ drop (Suc i) ?fl,
                  microtasks := microtasks w @ [ThenReaction s rs rjs]\<rparr>"
    define A where "A = resolveArr (dl w)"
    define B where "B = tasks_pids (microtasks w)"
    define C1 where "C1 = inflight_pids (take i ?fl)"
    define C2 where "C2 = inflight_pids (drop (Suc i) ?fl)"
    have "inflight_pids ?fl = inflight_pids (take i ?fl @ (so, rs, rjs) # drop (Suc i) ?fl)"
      using split by simp
    then have own: "owned w = A @ B @ (C1 @ rs @ C2)"
      by (simp add: owned_def A_def B_def C1_def C2_def)
    have own3: "owned ?w3 = A @ (B @ rs) @ (C1 @ C2)"
      by (simp add: owned_def A_def B_def C1_def C2_def)
    from inv have d: "distinct (xs @ A @ B @ (C1 @ rs @ C2))" by (simp add: heap_inv_def own)
    have "heap_inv xs ?w3"
      using inv
    proof (rule heap_inv_transfer)
      show "set (xs @ owned ?w3) \<subseteq> set (xs @ owned w)" unfolding own3 own by auto
      show "distinct (xs @ owned ?w3)" using d unfolding own3 by auto
      show "rejectArr (dl ?w3) = resolveArr (dl ?w3)" using inv by (simp add: heap_inv_def)
      show "t' \<in> set (microtasks w) \<or> task_ok (length (heap ?w3)) (xs @ owned ?w3) t'"
        if "t' \<in> set (microtasks ?w3)" for t'
        using that rjs by auto
      show "e' \<in> set (inflight w) \<or> snd (snd e') = fst (snd e')" if "e' \<in> set (inflight ?w3)" for e'
        using that by (auto dest: in_set_takeD in_set_dropD)
    qed simp_all
    with True e Some show ?thesis by (simp add: loader_settles_def)
  qed
qed

lemma heap_inv_new_world: "heap_inv [] new_world"
  by (simp add: heap_inv_def owned_def new_world_def new_dataloader_def)

lemma heap_inv_adopt: "heap_inv xs w \<Longrightarrow> heap_inv xs (w\<lparr>heap := adopt p (heap w)\<rparr>)"
  by (rule heap_inv_transfer [where w = w and xs = xs])
     (auto simp: heap_inv_def owned_def adopt_pending)

lemma heap_inv_step: "heap_inv xs w \<Longrightarrow> heap_inv xs (step ev w)"
  by (cases ev)
     (simp_all add: heap_inv_load heap_inv_run_microtask heap_inv_loader_settles heap_inv_adopt)

lemma reachable_heap_inv: "reachable w \<Longrightarrow> heap_inv [] w"
  by (induction rule: reachable.induct) (simp_all add: heap_inv_new_world heap_inv_step)

lemma heap_inv_steps: "heap_inv xs w \<Longrightarrow> heap_inv xs (fold step evs w)"
  by (induction evs arbitrary: w) (simp_all add: heap_inv_step)

lemma orphans_stay_pending:
  "heap_inv xs w \<Longrightarrow> p \<in> set xs \<Longrightarrow> heap (fold step evs w) ! p = Pending"
  using heap_inv_steps [of xs w evs] by (simp add: heap_inv_def)

subsection \<open>Reachable worlds\<close>

lemma reachable_loads: "reachable w \<Longrightarrow> reachable (loads ks w)"
proof (induction ks arbitrary: w)
  case Nil
  then show ?case by simp
next
  case (Cons k ks)
  from Cons.prems have "reachable (step (Load k) w)" by (rule reachable.after)
  then show ?case by (simp add: loads_Cons Cons.IH)
qed

lemma reachable_run_microtask:
  "reachable w \<Longrightarrow> reachable (run_microtask loaderFn w)"
  using reachable.after [of w "Microtask loaderFn"] by simp

lemma reachable_loader_settles:
  "reachable w \<Longrightarrow> reachable (loader_settles i w)"
  using reachable.after [of w "Settles i"] by simp

lemma reachable_steps:
  "reachable w \<Longrightarrow> reachable (fold step evs w)"
  by (induction evs arbitrary: w) (simp_all add: reachable.after)

lemma reachable_idle:
  assumes "reachable w" and "\<not> isFlushPending (dl w)"
  shows "dl w = new_dataloader"
proof -
  from assms(1) have s: "sched_inv w" and h: "heap_inv [] w"
    by (rule reachable_sched_inv, rule reachable_heap_inv)
  from s assms(2) have d: "data (dl w) = []" by (simp add: sched_inv_def)
  with s have "map fst (cachePromises (dl w)) = []" by (simp add: sched_inv_def)
  then have c: "cachePromises (dl w) = []" by simp
  with s have r: "resolveArr (dl w) = []" by (simp add: sched_inv_def)
  with h have "rejectArr (dl w) = []" by (simp add: heap_inv_def)
  with assms(2) d c r show ?thesis by (cases "dl w") (simp add: new_dataloader_def)
qed

lemma then_reaction_pending:
  assumes "reachable w" and "microtasks w = ThenReaction s rs rjs # q"
  shows "rjs = rs \<and> distinct rs \<and> (\<forall>p \<in> set rs. p < length (heap w) \<and> heap w ! p = Pending)"
proof -
  from assms(1) have h: "heap_inv [] w" by (rule reachable_heap_inv)
  from heap_inv_task_ok [OF h, of "ThenReaction s rs rjs"] have 1: "rjs = rs"
    by (simp add: assms(2))
  from heap_inv_pop [OF h assms(2)]
  have "distinct rs" and "\<forall>p \<in> set rs. p < length (heap w) \<and> heap w ! p = Pending"
    by (simp_all add: heap_inv_def)
  with 1 show ?thesis by simp
qed

lemma catch_thrown_pending:
  assumes "reachable w" and "microtasks w = CatchReaction (Thrown e) rjs # q"
  shows "\<forall>p \<in> set rjs. p < length (heap w) \<and> heap w ! p = Pending"
proof -
  from assms(1) have h: "heap_inv [] w" by (rule reachable_heap_inv)
  from heap_inv_pop [OF h assms(2)] show ?thesis by (simp add: heap_inv_def)
qed

subsection \<open>A resolved Promise stays resolved\<close>

lemma heap_load_nth: "p < length (heap w) \<Longrightarrow> heap (snd (load k w)) ! p = heap w ! p"
  by (cases "map_of (cachePromises (dl w)) k") (simp_all add: load_cached load_fresh nth_append)

lemma length_heap_load: "length (heap w) \<le> length (heap (snd (load k w)))"
  by (cases "map_of (cachePromises (dl w)) k") (simp_all add: load_cached load_fresh)

lemma length_heap_loads: "length (heap w) \<le> length (heap (loads ks w))"
proof (induction ks arbitrary: w)
  case Nil
  then show ?case by simp
next
  case (Cons k ks)
  from length_heap_load [of w k] Cons [of "snd (load k w)"] show ?case
    by (simp add: loads_Cons)
qed

lemma heap_loads_nth: "p < length (heap w) \<Longrightarrow> heap (loads ks w) ! p = heap w ! p"
proof (induction ks arbitrary: w)
  case Nil
  then show ?case by simp
next
  case (Cons k ks)
  from Cons.prems length_heap_load [of w k] have "p < length (heap (snd (load k w)))" by simp
  from Cons.IH [OF this] Cons.prems show ?case by (simp add: loads_Cons heap_load_nth)
qed

lemma heap_flushJobs_nth: "p < length (heap w) \<Longrightarrow> heap (flushJobs loaderFn w) ! p = heap w ! p"
  by (simp add: heap_flushJobs heap_loads_nth)

lemma length_heap_flushJobs: "length (heap w) \<le> length (heap (flushJobs loaderFn w))"
  using length_heap_loads [of "w\<lparr>dl := new_dataloader\<rparr>"] by (simp add: heap_flushJobs)

lemma heap_exec_task_settled:
  assumes "p < length (heap w)" and "heap w ! p \<noteq> Pending"
  shows "heap (exec_task loaderFn t w) ! p = heap w ! p"
proof (cases "(loaderFn, t, w)" rule: exec_task.cases)
  case (3 lf rets rs rjs w')
  with assms show ?thesis
    by (simp add: exec_then_fulfils forEach_resolve_settled del: exec_task.simps)
qed (use assms in \<open>auto simp: heap_flushJobs_nth forEach_reject_settled\<close>)

lemma length_heap_exec_task: "length (heap w) \<le> length (heap (exec_task loaderFn t w))"
proof (cases "(loaderFn, t, w)" rule: exec_task.cases)
  case (3 lf rets rs rjs w')
  then show ?thesis by (simp add: exec_then_fulfils del: exec_task.simps)
qed (auto simp: length_heap_flushJobs)

lemma heap_step_settled:
  assumes "p < length (heap w)" and "heap w ! p \<noteq> Pending"
  shows "heap (step ev w) ! p = heap w ! p \<or> (\<exists>q. heap (step ev w) = adopt q (heap w))"
proof (cases ev)
  case (Load k)
  with assms show ?thesis by (simp add: heap_load_nth)
next
  case (Microtask lf)
  show ?thesis
  proof (cases "microtasks w")
    case Nil
    with Microtask show ?thesis by (simp add: run_microtask_def)
  next
    case (Cons t ts)
    from assms have "heap (exec_task lf t (w\<lparr>microtasks := ts\<rparr>)) ! p = heap w ! p"
      using heap_exec_task_settled [of p "w\<lparr>microtasks := ts\<rparr>" lf t] by simp
    with Microtask Cons show ?thesis by (simp add: run_microtask_def)
  qed
next
  case (Settles i)
  then show ?thesis by (auto simp: loader_settles_def split: prod.split option.split)
next
  case (Adopts q)
  then show ?thesis by auto
qed

lemma length_heap_step: "length (heap w) \<le> length (heap (step ev w))"
proof (cases ev)
  case (Load k)
  then show ?thesis by (simp add: length_heap_load)
next
  case (Microtask lf)
  show ?thesis
  proof (cases "microtasks w")
    case Nil
    with Microtask show ?thesis by (simp add: run_microtask_def)
  next
    case (Cons t ts)
    from length_heap_exec_task [of "w\<lparr>microtasks := ts\<rparr>" lf t] Microtask Cons show ?thesis
      by (simp add: run_microtask_def)
  qed
next
  case (Settles i)
  then show ?thesis by (auto simp: loader_settles_def split: prod.split option.split)
next
  case (Adopts q)
  then show ?thesis by simp
qed

lemma settled_by_step:
  assumes "ret \<noteq> Hole" and "p < length (heap w)" and "settled_by ret (heap w ! p)"
  shows "settled_by ret (heap (step ev w) ! p)"
proof -
  from assms(1,3) have "heap w ! p \<noteq> Pending" by (rule settled_by_not_pending)
  from heap_step_settled [OF assms(2) this, of ev] show ?thesis
  proof
    assume "heap (step ev w) ! p = heap w ! p"
    with assms(3) show ?thesis by simp
  next
    assume "\<exists>q. heap (step ev w) = adopt q (heap w)"
    then obtain q where "heap (step ev w) = adopt q (heap w)" ..
    with settled_by_adopt [OF assms] show ?thesis by simp
  qed
qed

lemma settled_by_steps:
  "ret \<noteq> Hole \<Longrightarrow> p < length (heap w) \<Longrightarrow> settled_by ret (heap w ! p) \<Longrightarrow>
   settled_by ret (heap (fold step evs w) ! p)"
proof (induction evs arbitrary: w)
  case Nil
  then show ?case by simp
next
  case (Cons ev evs)
  from Cons.prems(2) length_heap_step [of w ev] have "p < length (heap (step ev w))" by simp
  moreover from Cons.prems have "settled_by ret (heap (step ev w) ! p)" by (rule settled_by_step)
  ultimately show ?case using Cons.IH [OF Cons.prems(1)] by simp
qed



subsection \<open>The then reaction of a batch\<close>

lemma then_reaction_resolves:
  assumes "reachable w" and q: "microtasks w = ThenReaction (Fulfils rets) rs rjs # q"
    and i: "i < length rs" "i < length rets" "rets ! i \<noteq> Hole"
  shows "heap (run_microtask loaderFn w) ! (rs ! i) = resolution (rets ! i) \<and>
         rs ! i < length (heap (run_microtask loaderFn w))"
proof -
  from then_reaction_pending [OF assms(1) q] have d: "distinct rs"
    and pe: "\<forall>p \<in> set rs. p < length (heap w) \<and> heap w ! p = Pending"
    by simp_all
  from i(1) pe have "rs ! (0 + i) < length (heap w)" "heap w ! (rs ! (0 + i)) = Pending"
    by simp_all
  with d i have "fst (forEach_resolve rs 0 rets (heap w)) ! (rs ! (0 + i)) = resolution (rets ! i)"
    by (intro forEach_resolve_nth) simp_all
  moreover from i(1) pe have "rs ! i < length (heap w)" by simp
  ultimately show ?thesis by (simp add: run_then_fulfils [OF q])
qed

lemma then_reaction_settled_forever:
  assumes "reachable w" and q: "microtasks w = ThenReaction (Fulfils rets) rs rjs # q"
    and i: "i < length rs" "i < length rets" "rets ! i \<noteq> Hole"
  shows "settled_by (rets ! i) (heap (fold step evs (run_microtask loaderFn w)) ! (rs ! i))"
proof -
  from then_reaction_resolves [OF assms, of loaderFn]
  have "settled_by (rets ! i) (heap (run_microtask loaderFn w) ! (rs ! i))"
    and "rs ! i < length (heap (run_microtask loaderFn w))"
    by (simp_all add: settled_by_resolution)
  with i(3) show ?thesis by (intro settled_by_steps)
qed

lemma then_reaction_left_forever:
  assumes "reachable w" and q: "microtasks w = ThenReaction (Fulfils rets) rs rjs # q"
    and ok: "snd (forEach_resolve rs 0 rets (heap w))"
    and i: "i < length rs" "length rets \<le> i \<or> rets ! i = Hole"
  shows "heap (fold step evs (run_microtask loaderFn w)) ! (rs ! i) = Pending"
proof -
  from assms(1) have h: "heap_inv [] w" by (rule reachable_heap_inv)
  from then_reaction_pending [OF assms(1) q] have rjs: "rjs = rs" by simp
  from heap_inv_pop [OF h q] have "heap_inv ([] @ rs) (w\<lparr>microtasks := q\<rparr>)" by simp
  then have "heap_inv (if snd (forEach_resolve rs 0 rets (heap (w\<lparr>microtasks := q\<rparr>)))
                       then [] @ left_pending rs rets else [])
      (exec_task loaderFn (ThenReaction (Fulfils rets) rs rs) (w\<lparr>microtasks := q\<rparr>))"
    by (rule heap_inv_then_fulfils)
  moreover have "run_microtask loaderFn w =
      exec_task loaderFn (ThenReaction (Fulfils rets) rs rs) (w\<lparr>microtasks := q\<rparr>)"
    using q rjs by (simp add: run_microtask_def)
  ultimately have "heap_inv (left_pending rs rets) (run_microtask loaderFn w)"
    using ok by simp
  moreover from i have "rs ! i \<in> set (left_pending rs rets)" by (rule left_pending_nth)
  ultimately show ?thesis by (rule orphans_stay_pending)
qed

lemma then_reaction_position:
  assumes "reachable w" and q: "microtasks w = ThenReaction (Fulfils rets) rs rjs # q"
    and ok: "\<forall>j < length rets. rets ! j \<noteq> Hole \<longrightarrow> j < length rs"
    and i: "i < length rs"
  shows "microtasks (run_microtask loaderFn w) = q \<and>
         settled_by (if i < length rets then rets ! i else Hole)
           (heap (fold step evs (run_microtask loaderFn w)) ! (rs ! i))"
proof
  from ok have s: "snd (forEach_resolve rs 0 rets (heap w))" by (simp add: forEach_resolve_ok)
  then show "microtasks (run_microtask loaderFn w) = q" by (simp add: run_then_fulfils [OF q])
  show "settled_by (if i < length rets then rets ! i else Hole)
          (heap (fold step evs (run_microtask loaderFn w)) ! (rs ! i))"
  proof (cases "i < length rets \<and> rets ! i \<noteq> Hole")
    case True
    with then_reaction_settled_forever [OF assms(1) q i, of evs loaderFn] show ?thesis by simp
  next
    case False
    then have "length rets \<le> i \<or> rets ! i = Hole" by auto
    from then_reaction_left_forever [OF assms(1) q s i this, of evs loaderFn] False
    show ?thesis by auto
  qed
qed

subsection \<open>What flushJobs does with the answer of the loader function\<close>

lemma flushJobs_cong:
  "(data (dl w) \<noteq> [] \<Longrightarrow> loaderFn' (data (dl w)) = loaderFn (data (dl w))) \<Longrightarrow>
   flushJobs loaderFn' w = flushJobs loaderFn w"
  by (simp add: flushJobs_def)

lemma exec_task_cong:
  assumes "data (dl w) \<noteq> [] \<Longrightarrow> loaderFn' (data (dl w)) = loaderFn (data (dl w))"
  shows "exec_task loaderFn' t w = exec_task loaderFn t w"
proof (cases t)
  case FlushJobs
  from assms have "flushJobs loaderFn' w = flushJobs loaderFn w" by (rule flushJobs_cong)
  with FlushJobs show ?thesis by simp
next
  case (ThenReaction s rs rjs)
  then show ?thesis by (cases s) simp_all
next
  case (CatchReaction err rjs)
  then show ?thesis by simp
qed

lemma run_microtask_cong:
  assumes "data (dl w) \<noteq> [] \<Longrightarrow> loaderFn' (data (dl w)) = loaderFn (data (dl w))"
  shows "run_microtask loaderFn' w = run_microtask loaderFn w"
proof (cases "microtasks w")
  case Nil
  then show ?thesis by (simp add: run_microtask_def)
next
  case (Cons t ts)
  from assms have "exec_task loaderFn' t (w\<lparr>microtasks := ts\<rparr>) =
                   exec_task loaderFn t (w\<lparr>microtasks := ts\<rparr>)"
    by (intro exec_task_cong) simp
  with Cons show ?thesis by (simp add: run_microtask_def)
qed

lemma uncaught_flushJobs:
  "data (dl w) \<noteq> [] \<Longrightarrow>
   uncaught (flushJobs loaderFn w) =
     uncaught w @ (case snd (loaderFn (data (dl w))) of Throws e \<Rightarrow> [e] | _ \<Rightarrow> [])"
  by (simp add: flushJobs_nonempty Let_def loads_idle batch_of_def split: loader_result.split)

lemma inflight_flushJobs:
  "data (dl w) \<noteq> [] \<Longrightarrow>
   inflight (flushJobs loaderFn w) =
     inflight w @ (case snd (loaderFn (data (dl w))) of
                     ReturnsPromise s \<Rightarrow> [(s, resolveArr (dl w), rejectArr (dl w))]
                   | _ \<Rightarrow> [])"
  by (simp add: flushJobs_nonempty Let_def loads_idle batch_of_def split: loader_result.split)

lemma microtasks_flushJobs:
  "data (dl w) \<noteq> [] \<Longrightarrow>
   microtasks (flushJobs loaderFn w) =
     microtasks w @ (if fst (loaderFn (data (dl w))) = [] then [] else [FlushJobs]) @
       (case snd (loaderFn (data (dl w))) of
          Returns rets \<Rightarrow> [ThenReaction (Fulfils rets) (resolveArr (dl w)) (rejectArr (dl w))]
        | _ \<Rightarrow> [])"
  by (simp add: flushJobs_nonempty Let_def loads_idle batch_of_def split: loader_result.split)

lemma flushJobs_answer_used:
  assumes ne: "data (dl w) \<noteq> []"
    and eq: "flushJobs loaderFn' w = flushJobs loaderFn w"
  shows "snd (loaderFn' (data (dl w))) = snd (loaderFn (data (dl w)))"
proof -
  from eq have "uncaught (flushJobs loaderFn' w) = uncaught (flushJobs loaderFn w)"
    and "inflight (flushJobs loaderFn' w) = inflight (flushJobs loaderFn w)"
    and "last (microtasks (flushJobs loaderFn' w)) = last (microtasks (flushJobs loaderFn w))"
    by simp_all
  then show ?thesis
    unfolding uncaught_flushJobs [OF ne] inflight_flushJobs [OF ne] microtasks_flushJobs [OF ne]
    by (cases "snd (loaderFn' (data (dl w)))"; cases "snd (loaderFn (data (dl w)))") simp_all
qed

lemma uncaught_load [simp]: "uncaught (snd (load k w)) = uncaught w"
  by (cases "map_of (cachePromises (dl w)) k") (simp_all add: load_cached load_fresh)

lemma uncaught_loads [simp]: "uncaught (loads ks w) = uncaught w"
  by (induction ks arbitrary: w) (simp_all add: loads_Cons)

lemma inflight_load [simp]: "inflight (snd (load k w)) = inflight w"
  by (cases "map_of (cachePromises (dl w)) k") (simp_all add: load_cached load_fresh)

lemma inflight_loads [simp]: "inflight (loads ks w) = inflight w"
  by (induction ks arbitrary: w) (simp_all add: loads_Cons)

lemma data_flushJobs:
  "data (dl w) \<noteq> [] \<Longrightarrow>
   data (dl (flushJobs loaderFn w)) = first_seen (fst (loaderFn (data (dl w))))"
  by (simp add: dl_flushJobs loads_idle batch_of_def Let_def)

lemma last_microtasks_flushJobs:
  "data (dl w) \<noteq> [] \<Longrightarrow> snd (loaderFn (data (dl w))) = Returns rets \<Longrightarrow>
   last (microtasks (flushJobs loaderFn w)) =
     ThenReaction (Fulfils rets) (resolveArr (dl w)) (rejectArr (dl w))"
  by (simp add: microtasks_flushJobs)

lemma last_inflight_flushJobs:
  "data (dl w) \<noteq> [] \<Longrightarrow> snd (loaderFn (data (dl w))) = ReturnsPromise s \<Longrightarrow>
   last (inflight (flushJobs loaderFn w)) = (s, resolveArr (dl w), rejectArr (dl w))"
  by (simp add: inflight_flushJobs)

lemma calls_exec_other: "t \<noteq> FlushJobs \<Longrightarrow> calls (exec_task loaderFn t w) = calls w"
  by (cases "(loaderFn, t, w)" rule: exec_task.cases) (simp_all split: prod.split bool.split)

lemma loader_settles_queues:
  "n < length (inflight w) \<Longrightarrow> inflight w ! n = (Some s, rs, rjs) \<Longrightarrow>
   microtasks (loader_settles n w) = microtasks w @ [ThenReaction s rs rjs]"
  by (simp add: loader_settles_def)

lemma flush_in_reachable:
  fixes w :: "('k, 'v, 'e) world"
  assumes "reachable w" and q: "microtasks w = FlushJobs # q"
  shows "data (dl w) \<noteq> []"
    and "length (resolveArr (dl w)) = length (data (dl w))"
    and "run_microtask loaderFn w = flushJobs loaderFn (w\<lparr>microtasks := q\<rparr>)"
proof -
  from assms(1) have s: "sched_inv w" by (rule reachable_sched_inv)
  from q have "count_list (microtasks w) FlushJobs \<noteq> 0" by simp
  with s show "data (dl w) \<noteq> []" by (auto simp: sched_inv_def split: if_splits)
  from s have "length (map snd (cachePromises (dl w))) = length (map fst (cachePromises (dl w)))"
    by simp
  with s show "length (resolveArr (dl w)) = length (data (dl w))" by (simp add: sched_inv_def)
  from q show "run_microtask loaderFn w = flushJobs loaderFn (w\<lparr>microtasks := q\<rparr>)"
    by (simp add: run_microtask_def)
qed

lemma flush_of_batch:
  assumes "reachable w" and q: "microtasks w = []" and ks: "ks \<noteq> []"
  shows "dl w = new_dataloader \<and>
         data (dl (loads ks w)) = first_seen ks \<and> first_seen ks \<noteq> [] \<and>
         length (resolveArr (dl (loads ks w))) = length (first_seen ks) \<and>
         rejectArr (dl (loads ks w)) = resolveArr (dl (loads ks w)) \<and>
         run_microtask loaderFn (loads ks w) = flushJobs loaderFn ((loads ks w)\<lparr>microtasks := []\<rparr>) \<and>
         reachable (run_microtask loaderFn (loads ks w))"
proof -
  from assms(1) have s: "sched_inv w" by (rule reachable_sched_inv)
  with q have "\<not> isFlushPending (dl w)" by (simp add: sched_inv_def split: if_splits)
  with assms(1) have idle: "dl w = new_dataloader" by (rule reachable_idle)
  then have b: "loads ks w = batch_of ks w" by (rule loads_idle)
  from ks have "set (first_seen ks) \<noteq> {}" by simp
  then have ne: "first_seen ks \<noteq> []" by (simp del: first_seen_set)
  from b q ks have "microtasks (loads ks w) = [FlushJobs]" by (simp add: batch_of_def Let_def)
  then have "run_microtask loaderFn (loads ks w) =
      flushJobs loaderFn ((loads ks w)\<lparr>microtasks := []\<rparr>)"
    by (simp add: run_microtask_def)
  moreover from assms(1) have "reachable (run_microtask loaderFn (loads ks w))"
    by (intro reachable_run_microtask reachable_loads)
  ultimately show ?thesis using idle ne b by (simp add: batch_of_def Let_def)
qed

subsection \<open>A loader function that throws, a loader Promise that rejects\<close>

lemma sync_throw_never_settles:
  assumes "reachable w" and q: "microtasks w = FlushJobs # q"
    and thr: "snd (loaderFn (data (dl w))) = Throws e"
    and p: "p \<in> set (resolveArr (dl w))"
  shows "heap (fold step evs (run_microtask loaderFn w)) ! p = Pending \<and>
         uncaught (run_microtask loaderFn w) = uncaught w @ [e]"
proof -
  let ?wp = "w\<lparr>microtasks := q\<rparr>"
  from assms(1) have s: "sched_inv w" and h: "heap_inv [] w"
    by (rule reachable_sched_inv, rule reachable_heap_inv)
  from s have "length (map snd (cachePromises (dl w))) = length (map fst (cachePromises (dl w)))"
    by simp
  with s have "length (resolveArr (dl w)) = length (data (dl w))" by (simp add: sched_inv_def)
  with p have ne: "data (dl ?wp) \<noteq> []" by auto
  from heap_inv_pop [OF h q] have "heap_inv [] ?wp" by simp
  from heap_inv_flushJobs_throws [OF this ne, of loaderFn e] thr
  have "heap_inv (resolveArr (dl w)) (flushJobs loaderFn ?wp)" by simp
  moreover have run: "run_microtask loaderFn w = flushJobs loaderFn ?wp"
    using q by (simp add: run_microtask_def)
  ultimately have "heap_inv (resolveArr (dl w)) (run_microtask loaderFn w)" by simp
  from orphans_stay_pending [OF this p]
  have 1: "heap (fold step evs (run_microtask loaderFn w)) ! p = Pending" .
  from ne thr have 2: "uncaught (run_microtask loaderFn w) = uncaught w @ [e]"
    unfolding run by (simp add: flushJobs_nonempty Let_def loads_idle batch_of_def)
  from 1 2 show ?thesis ..
qed

lemma loader_rejection_rejects_all:
  assumes "reachable w"
  shows "(microtasks w = ThenReaction (Rejects e) rs rjs # q \<longrightarrow>
            run_microtask loaderFn w =
              w\<lparr>microtasks := q @ [CatchReaction (Thrown e) rjs]\<rparr> \<and> rjs = rs) \<and>
         (microtasks w = CatchReaction (Thrown e) rjs # q \<longrightarrow>
            (\<forall>p \<in> set rjs. heap (run_microtask loaderFn w) ! p = Rejected (Thrown e)))"
proof (intro conjI impI)
  assume q: "microtasks w = ThenReaction (Rejects e) rs rjs # q"
  then show "run_microtask loaderFn w = w\<lparr>microtasks := q @ [CatchReaction (Thrown e) rjs]\<rparr>"
    by (simp add: run_microtask_def)
  from then_reaction_pending [OF assms q] show "rjs = rs" by simp
next
  assume q: "microtasks w = CatchReaction (Thrown e) rjs # q"
  from catch_thrown_pending [OF assms q]
  have "\<forall>p \<in> set rjs. p < length (heap w) \<and> heap w ! p = Pending" .
  then have "\<forall>p \<in> set rjs. forEach_reject (Thrown e) rjs (heap w) ! p = Rejected (Thrown e)"
    by (auto intro: forEach_reject_pending)
  with q show "\<forall>p \<in> set rjs. heap (run_microtask loaderFn w) ! p = Rejected (Thrown e)"
    by (simp add: run_microtask_def)
qed

section \<open>The claims\<close>

text \<open>
  Claim C1. Let \<open>ks\<close> be \<^verbatim>\<open>load\<close> calls made one after the other, with no flush
  between them, in any world the program can be in. After them exactly one
  \<^verbatim>\<open>flushJobs\<close> is queued, and the calls themselves have not called the loader
  function. When \<^verbatim>\<open>flushJobs\<close> then runs, it calls the loader function exactly once,
  whatever the loader does, and the argument is \<open>first_seen keys\<close>, where \<open>keys\<close> are
  the keys loaded since the last flush: it has no duplicates, it has exactly the keys of
  \<open>keys\<close>, and it lists them in the order of their first \<^verbatim>\<open>load\<close> call (the positions of
  \<open>keys\<close> whose key did not occur before, in increasing order). When no flush was pending
  before, the batch is opened by \<open>ks\<close>: \<open>keys\<close> is \<open>ks\<close>, and the one
  \<^verbatim>\<open>flushJobs\<close> is queued by these calls. When nothing at all was queued before, the
  next microtask is this \<^verbatim>\<open>flushJobs\<close>, and running it makes the one call.

  The loader function is applied to this list and to nothing else, and its answer is used.
  \<open>first_seen keys\<close> is the content of \<^verbatim>\<open>data\<close> that \<^verbatim>\<open>flushJobs\<close> hands
  over. Two loader functions that answer alike to \<open>first_seen keys\<close> give the same world,
  however they differ elsewhere; two that give the same world have ended their call alike and
  have loaded the same keys meanwhile. A thrown exception is recorded as uncaught; a returned
  array is what the \<^verbatim>\<open>then\<close> reaction, queued with the resolvers and rejectors of the
  batch, will run with; a returned Promise is registered with the same resolvers and
  rejectors.
\<close>

theorem C1_batching:
  assumes "reachable w" and "ks \<noteq> []"
  shows "let keys = data (dl w) @ ks in
           count_list (microtasks (loads ks w)) FlushJobs = 1 \<and>
           calls (loads ks w) = calls w \<and>
           calls (flushJobs loaderFn (loads ks w)) = calls w @ [first_seen keys] \<and>
           distinct (first_seen keys) \<and> set (first_seen keys) = set keys \<and>
           first_seen keys =
             map (\<lambda>i. keys ! i) (filter (\<lambda>i. keys ! i \<notin> set (take i keys)) [0..<length keys]) \<and>
           (\<not> isFlushPending (dl w) \<longrightarrow>
              keys = ks \<and> microtasks (loads ks w) = microtasks w @ [FlushJobs]) \<and>
           (microtasks w = [] \<longrightarrow>
              calls (run_microtask loaderFn (loads ks w)) = calls w @ [first_seen ks]) \<and>
           data (dl (loads ks w)) = first_seen keys \<and>
           (\<forall>lf. lf (first_seen keys) = loaderFn (first_seen keys) \<longrightarrow>
              flushJobs lf (loads ks w) = flushJobs loaderFn (loads ks w)) \<and>
           (\<forall>lf. flushJobs lf (loads ks w) = flushJobs loaderFn (loads ks w) \<longrightarrow>
              snd (lf (first_seen keys)) = snd (loaderFn (first_seen keys)) \<and>
              first_seen (fst (lf (first_seen keys))) =
                first_seen (fst (loaderFn (first_seen keys)))) \<and>
           (\<forall>e. snd (loaderFn (first_seen keys)) = Throws e \<longrightarrow>
              uncaught (flushJobs loaderFn (loads ks w)) = uncaught w @ [e]) \<and>
           (\<forall>rets. snd (loaderFn (first_seen keys)) = Returns rets \<longrightarrow>
              last (microtasks (flushJobs loaderFn (loads ks w))) =
                ThenReaction (Fulfils rets) (resolveArr (dl (loads ks w)))
                  (rejectArr (dl (loads ks w)))) \<and>
           (\<forall>s. snd (loaderFn (first_seen keys)) = ReturnsPromise s \<longrightarrow>
              last (inflight (flushJobs loaderFn (loads ks w))) =
                (s, resolveArr (dl (loads ks w)), rejectArr (dl (loads ks w)))) \<and>
           (microtasks w = [] \<longrightarrow>
              (\<forall>lf. lf (first_seen ks) = loaderFn (first_seen ks) \<longrightarrow>
                 run_microtask lf (loads ks w) = run_microtask loaderFn (loads ks w)) \<and>
              (\<forall>lf. run_microtask lf (loads ks w) = run_microtask loaderFn (loads ks w) \<longrightarrow>
                 snd (lf (first_seen ks)) = snd (loaderFn (first_seen ks))))"
proof -
  let ?keys = "data (dl w) @ ks"
  let ?w1 = "loads ks w"
  let ?K = "first_seen ?keys"
  from assms(1) have s: "sched_inv w" by (rule reachable_sched_inv)
  then have s1: "sched_inv ?w1" by (rule sched_inv_loads)
  from s have d: "data (dl ?w1) = ?K" by (rule data_loads)
  from assms(2) have "set ?K \<noteq> {}" by simp
  then have ne: "?K \<noteq> []" by (simp del: first_seen_set)
  with d have ne1: "data (dl ?w1) \<noteq> []" by simp
  from s1 ne d have 1: "count_list (microtasks ?w1) FlushJobs = 1" by (simp add: sched_inv_def)
  from ne d have 3: "calls (flushJobs loaderFn ?w1) = calls w @ [?K]"
    by (simp add: calls_flushJobs)
  have 7: "\<not> isFlushPending (dl w) \<longrightarrow> ?keys = ks \<and> microtasks ?w1 = microtasks w @ [FlushJobs]"
  proof
    assume "\<not> isFlushPending (dl w)"
    with assms(1) have idle: "dl w = new_dataloader" by (rule reachable_idle)
    then have "?w1 = batch_of ks w" by (rule loads_idle)
    with assms(2) idle show "?keys = ks \<and> microtasks ?w1 = microtasks w @ [FlushJobs]"
      by (simp add: batch_of_def Let_def new_dataloader_def)
  qed
  have 2: "calls ?w1 = calls w" by simp
  have 4: "distinct ?K" and 5: "set ?K = set ?keys" by simp_all
  note 6 = first_seen_by_index [of ?keys]
  have run: "?keys = ks \<and> (\<forall>lf. run_microtask lf ?w1 = flushJobs lf (?w1\<lparr>microtasks := []\<rparr>))"
    if q: "microtasks w = []"
  proof -
    from s q have "\<not> isFlushPending (dl w)" by (simp add: sched_inv_def split: if_splits)
    with 7 q have "?keys = ks" and "microtasks ?w1 = [FlushJobs]" by simp_all
    then show ?thesis by (simp add: run_microtask_def)
  qed
  have 8: "microtasks w = [] \<longrightarrow> calls (run_microtask loaderFn ?w1) = calls w @ [first_seen ks]"
  proof
    assume q: "microtasks w = []"
    from run [OF q] have k: "?keys = ks"
      and r: "run_microtask loaderFn ?w1 = flushJobs loaderFn (?w1\<lparr>microtasks := []\<rparr>)"
      by simp_all
    from ne1 have "calls (flushJobs loaderFn (?w1\<lparr>microtasks := []\<rparr>)) = calls w @ [data (dl ?w1)]"
      by (simp add: calls_flushJobs)
    with r d k show "calls (run_microtask loaderFn ?w1) = calls w @ [first_seen ks]" by simp
  qed
  have 9: "\<forall>lf. lf ?K = loaderFn ?K \<longrightarrow> flushJobs lf ?w1 = flushJobs loaderFn ?w1"
  proof (intro allI impI)
    fix lf :: "('a, 'b, 'c) loaderFn"
    assume "lf ?K = loaderFn ?K"
    with d have "lf (data (dl ?w1)) = loaderFn (data (dl ?w1))" by simp
    then show "flushJobs lf ?w1 = flushJobs loaderFn ?w1" by (intro flushJobs_cong)
  qed
  have 10: "\<forall>lf. flushJobs lf ?w1 = flushJobs loaderFn ?w1 \<longrightarrow>
      snd (lf ?K) = snd (loaderFn ?K) \<and> first_seen (fst (lf ?K)) = first_seen (fst (loaderFn ?K))"
  proof (intro allI impI)
    fix lf :: "('a, 'b, 'c) loaderFn"
    assume eq: "flushJobs lf ?w1 = flushJobs loaderFn ?w1"
    from flushJobs_answer_used [OF ne1 eq] d have a: "snd (lf ?K) = snd (loaderFn ?K)" by simp
    from eq have "data (dl (flushJobs lf ?w1)) = data (dl (flushJobs loaderFn ?w1))" by simp
    with ne1 d have b: "first_seen (fst (lf ?K)) = first_seen (fst (loaderFn ?K))"
      by (simp add: data_flushJobs)
    from a b show "snd (lf ?K) = snd (loaderFn ?K) \<and>
        first_seen (fst (lf ?K)) = first_seen (fst (loaderFn ?K))" ..
  qed
  have 11: "\<forall>e. snd (loaderFn ?K) = Throws e \<longrightarrow>
      uncaught (flushJobs loaderFn ?w1) = uncaught w @ [e]"
    using ne1 d by (simp add: uncaught_flushJobs)
  have 12: "\<forall>rets. snd (loaderFn ?K) = Returns rets \<longrightarrow>
      last (microtasks (flushJobs loaderFn ?w1)) =
        ThenReaction (Fulfils rets) (resolveArr (dl ?w1)) (rejectArr (dl ?w1))"
    using ne1 d by (simp add: last_microtasks_flushJobs)
  have 13: "\<forall>s. snd (loaderFn ?K) = ReturnsPromise s \<longrightarrow>
      last (inflight (flushJobs loaderFn ?w1)) = (s, resolveArr (dl ?w1), rejectArr (dl ?w1))"
    using ne1 d by (simp add: last_inflight_flushJobs)
  have 14: "microtasks w = [] \<longrightarrow>
      (\<forall>lf. lf (first_seen ks) = loaderFn (first_seen ks) \<longrightarrow>
         run_microtask lf ?w1 = run_microtask loaderFn ?w1) \<and>
      (\<forall>lf. run_microtask lf ?w1 = run_microtask loaderFn ?w1 \<longrightarrow>
         snd (lf (first_seen ks)) = snd (loaderFn (first_seen ks)))"
  proof (intro impI conjI allI)
    fix lf :: "('a, 'b, 'c) loaderFn"
    assume q: "microtasks w = []" and "lf (first_seen ks) = loaderFn (first_seen ks)"
    with run [OF q] d have "lf (data (dl ?w1)) = loaderFn (data (dl ?w1))" by simp
    then show "run_microtask lf ?w1 = run_microtask loaderFn ?w1" by (intro run_microtask_cong)
  next
    fix lf :: "('a, 'b, 'c) loaderFn"
    assume q: "microtasks w = []"
      and eq: "run_microtask lf ?w1 = run_microtask loaderFn ?w1"
    let ?wp = "?w1\<lparr>microtasks := []\<rparr>"
    from run [OF q] eq have eq': "flushJobs lf ?wp = flushJobs loaderFn ?wp" by simp
    from ne1 have nep: "data (dl ?wp) \<noteq> []" by simp
    from flushJobs_answer_used [OF nep eq'] d run [OF q]
    show "snd (lf (first_seen ks)) = snd (loaderFn (first_seen ks))" by simp
  qed
  from 1 2 3 4 5 6 7 8 d 9 10 11 12 13 14 show ?thesis
    unfolding Let_def by (intro conjI)
qed

theorem C1_batching_witness:
  "reachable new_world_nat \<and> [3, 5, 3, 7 :: nat] \<noteq> [] \<and>
   \<not> isFlushPending (dl new_world_nat) \<and> microtasks new_world_nat = [] \<and>
   microtasks (loads [3, 5, 3, 7 :: nat] new_world_nat) = [FlushJobs] \<and>
   calls (flushJobs times_ten (loads [3, 5, 3, 7] new_world_nat)) = [[3, 5, 7]] \<and>
   calls (run_microtask times_ten (loads [3, 5, 3, 7] new_world_nat)) = [[3, 5, 7]] \<and>
   snd (times_ten (first_seen [3, 5, 3, 7])) = Returns [Value 30, Value 50, Value 70] \<and>
   last (microtasks (flushJobs times_ten (loads [3, 5, 3, 7] new_world_nat))) =
     ThenReaction (Fulfils [Value 30, Value 50, Value 70]) [0, 1, 2] [0, 1, 2] \<and>
   drops_last (first_seen [3, 5, 3, 7]) \<noteq> times_ten (first_seen [3, 5, 3, 7]) \<and>
   flushJobs drops_last (loads [3, 5, 3, 7] new_world_nat) \<noteq>
     flushJobs times_ten (loads [3, 5, 3, 7] new_world_nat) \<and>
   throws_on_empty [] \<noteq> times_ten [] \<and>
   throws_on_empty (first_seen [3, 5, 3, 7]) = times_ten (first_seen [3, 5, 3, 7]) \<and>
   flushJobs throws_on_empty (loads [3, 5, 3, 7] new_world_nat) =
     flushJobs times_ten (loads [3, 5, 3, 7] new_world_nat)"
proof -
  let ?w = "new_world_nat"
  let ?ks = "[3, 5, 3, 7 :: nat]"
  have r: "reachable ?w" by (rule reachable.fresh)
  have k: "?ks \<noteq> []" by simp
  have f: "\<not> isFlushPending (dl ?w)" and q: "microtasks ?w = []" and c: "calls ?w = []"
    and d: "data (dl ?w) = []"
    by (simp_all add: new_world_def new_dataloader_def)
  have fs: "first_seen ?ks = [3, 5, 7]" by simp
  have rs: "resolveArr (dl (loads ?ks ?w)) = [0, 1, 2]" "rejectArr (dl (loads ?ks ?w)) = [0, 1, 2]"
    by code_simp+
  have a: "snd (times_ten [3, 5, 7]) = Returns [Value 30, Value 50, Value 70]"
    and b: "snd (drops_last [3, 5, 7]) \<noteq> snd (times_ten [3, 5, 7])"
    by (simp_all add: times_ten_def drops_last_def)
  note T = C1_batching [OF r k, of times_ten, unfolded Let_def]
  let ?K = "first_seen (data (dl ?w) @ ?ks)"
  have K: "?K = [3, 5, 7]" by (simp add: d)
  from T f have t1: "microtasks (loads ?ks ?w) = microtasks ?w @ [FlushJobs]" by blast
  from T have t2: "calls (flushJobs times_ten (loads ?ks ?w)) = calls ?w @ [?K]" by blast
  from T q have t3: "calls (run_microtask times_ten (loads ?ks ?w)) = calls ?w @ [first_seen ?ks]"
    by blast
  from T have "\<forall>rets. snd (times_ten ?K) = Returns rets \<longrightarrow>
      last (microtasks (flushJobs times_ten (loads ?ks ?w))) =
        ThenReaction (Fulfils rets) (resolveArr (dl (loads ?ks ?w))) (rejectArr (dl (loads ?ks ?w)))"
    by blast
  with a K have t4: "last (microtasks (flushJobs times_ten (loads ?ks ?w))) =
      ThenReaction (Fulfils [Value 30, Value 50, Value 70]) [0, 1, 2] [0, 1, 2]"
    by (simp add: rs)
  from T have "\<forall>lf. flushJobs lf (loads ?ks ?w) = flushJobs times_ten (loads ?ks ?w) \<longrightarrow>
      snd (lf ?K) = snd (times_ten ?K) \<and>
      first_seen (fst (lf ?K)) = first_seen (fst (times_ten ?K))"
    by blast
  then have "flushJobs drops_last (loads ?ks ?w) = flushJobs times_ten (loads ?ks ?w) \<longrightarrow>
      snd (drops_last ?K) = snd (times_ten ?K)"
    by blast
  with b K have t5: "flushJobs drops_last (loads ?ks ?w) \<noteq> flushJobs times_ten (loads ?ks ?w)"
    by auto
  from b have b': "drops_last [3, 5, 7] \<noteq> times_ten [3, 5, 7]" by auto
  have e: "throws_on_empty [] \<noteq> times_ten []"
    and e': "throws_on_empty [3, 5, 7] = times_ten [3, 5, 7]"
    by (simp_all add: throws_on_empty_def times_ten_def)
  from T have "\<forall>lf. lf ?K = times_ten ?K \<longrightarrow>
      flushJobs lf (loads ?ks ?w) = flushJobs times_ten (loads ?ks ?w)"
    by blast
  then have "throws_on_empty ?K = times_ten ?K \<longrightarrow>
      flushJobs throws_on_empty (loads ?ks ?w) = flushJobs times_ten (loads ?ks ?w)"
    by blast
  with e' K have t6: "flushJobs throws_on_empty (loads ?ks ?w) = flushJobs times_ten (loads ?ks ?w)"
    by simp
  from r f t1 t2 t3 t4 t5 t6 a b' e e' K show ?thesis by (simp add: q c fs)
qed

text \<open>
  Claim C2. Two \<^verbatim>\<open>load(k)\<close> calls of the same batch, with any other
  \<^verbatim>\<open>load\<close> calls \<open>ks\<close> between them and no flush, return the same Promise object, and
  the second call changes nothing: in particular it adds no entry to \<^verbatim>\<open>data\<close>.
\<close>

theorem C2_dedup_identity:
  "fst (load k (loads ks (snd (load k w)))) = fst (load k w) \<and>
   snd (load k (loads ks (snd (load k w)))) = loads ks (snd (load k w))"
proof -
  have "map_of (cachePromises (dl (loads ks (snd (load k w))))) k = Some (fst (load k w))"
    by (rule loads_keep_cached) (rule load_caches)
  then have "load k (loads ks (snd (load k w))) = (fst (load k w), loads ks (snd (load k w)))"
    by (rule load_cached)
  then show ?thesis by simp
qed

theorem C2_dedup_identity_witness:
  "fst (load 3 (loads [5] (snd (load 3 new_world_nat)))) = 0 \<and>
   fst (load 3 new_world_nat) = 0 \<and>
   data (dl (snd (load 3 (loads [5] (snd (load 3 new_world_nat)))))) =
     [3, 5]"
proof -
  let ?w = "new_world_nat"
  have 1: "fst (load 3 ?w) = 0" by code_simp
  have 2: "data (dl (loads [5] (snd (load 3 ?w)))) = [3, 5]" by code_simp
  from C2_dedup_identity [of 3 "[5]" ?w] 1 2 show ?thesis by simp
qed

text \<open>
  Claim C3. A \<^verbatim>\<open>flushJobs\<close> that finds pending keys resets all five fields before it
  calls the loader function. The reset is observed through the \<^verbatim>\<open>load\<close> calls that
  the loader function makes while it runs: the fields after \<^verbatim>\<open>flushJobs\<close> are those
  that these calls build from a fresh set of fields, so the pending keys are exactly the keys
  the loader loaded and their Promises are newly allocated, even for keys of the batch being
  flushed. When the loader function makes no such call, the fields are those of a fresh
  instance as soon as \<^verbatim>\<open>flushJobs\<close> returns, no Promise has been settled yet, and a
  \<^verbatim>\<open>load\<close> call then allocates a new Promise, starts a batch with the one key, and
  queues a new \<^verbatim>\<open>flushJobs\<close>; this holds however the loader's call ends, also when it
  returned a Promise that has not settled or never will.
\<close>

theorem C3_reset_before_fetch:
  assumes "data (dl w) \<noteq> []"
  shows "dl (flushJobs loaderFn w) =
           dl (loads (fst (loaderFn (data (dl w)))) (w\<lparr>dl := new_dataloader\<rparr>)) \<and>
         data (dl (flushJobs loaderFn w)) = first_seen (fst (loaderFn (data (dl w)))) \<and>
         resolveArr (dl (flushJobs loaderFn w)) =
           [length (heap w)..<length (heap w) + length (first_seen (fst (loaderFn (data (dl w)))))] \<and>
         (fst (loaderFn (data (dl w))) = [] \<longrightarrow>
            dl (flushJobs loaderFn w) = new_dataloader \<and>
            heap (flushJobs loaderFn w) = heap w \<and>
            fst (load k (flushJobs loaderFn w)) = length (heap w) \<and>
            data (dl (snd (load k (flushJobs loaderFn w)))) = [k] \<and>
            isFlushPending (dl (snd (load k (flushJobs loaderFn w)))) \<and>
            microtasks (snd (load k (flushJobs loaderFn w))) =
              microtasks (flushJobs loaderFn w) @ [FlushJobs])"
proof -
  let ?re = "fst (loaderFn (data (dl w)))"
  let ?w0 = "w\<lparr>dl := new_dataloader\<rparr>"
  from assms have 1: "dl (flushJobs loaderFn w) = dl (loads ?re ?w0)" by (rule dl_flushJobs)
  have b: "loads ?re ?w0 = batch_of ?re ?w0" by (simp add: loads_idle)
  from 1 b have 2: "data (dl (flushJobs loaderFn w)) = first_seen ?re"
    by (simp add: batch_of_def Let_def)
  from 1 b have 3: "resolveArr (dl (flushJobs loaderFn w)) =
      [length (heap w)..<length (heap w) + length (first_seen ?re)]"
    by (simp add: batch_of_def Let_def)
  have 4: "dl (flushJobs loaderFn w) = new_dataloader \<and>
           heap (flushJobs loaderFn w) = heap w \<and>
           fst (load k (flushJobs loaderFn w)) = length (heap w) \<and>
           data (dl (snd (load k (flushJobs loaderFn w)))) = [k] \<and>
           isFlushPending (dl (snd (load k (flushJobs loaderFn w)))) \<and>
           microtasks (snd (load k (flushJobs loaderFn w))) =
             microtasks (flushJobs loaderFn w) @ [FlushJobs]" if re: "?re = []"
  proof -
    from 1 re have d: "dl (flushJobs loaderFn w) = new_dataloader" by simp
    from assms re have h: "heap (flushJobs loaderFn w) = heap w" by (simp add: heap_flushJobs)
    from d have "map_of (cachePromises (dl (flushJobs loaderFn w))) k = None"
      by (simp add: new_dataloader_def)
    from load_fresh [OF this] d h show ?thesis by (simp add: new_dataloader_def)
  qed
  from 1 2 3 4 show ?thesis by blast
qed

theorem C3_reset_before_fetch_witness:
  "data (dl (loads [3, 5] new_world_nat)) \<noteq> [] \<and>
   data (dl (flushJobs loads_again (loads [3, 5] new_world_nat))) = [3, 5] \<and>
   resolveArr (dl (flushJobs loads_again (loads [3, 5] new_world_nat))) = [2, 3] \<and>
   fst (times_ten_async [3, 5]) = [] \<and>
   dl (flushJobs times_ten_async (loads [3, 5] new_world_nat)) = new_dataloader \<and>
   fst (load 3 (flushJobs times_ten_async (loads [3, 5] new_world_nat))) = 2"
proof -
  let ?w = "loads [3, 5] new_world_nat"
  have d: "data (dl ?w) = [3, 5]" and h: "length (heap ?w) = 2" by code_simp+
  then have ne: "data (dl ?w) \<noteq> []" by simp
  from C3_reset_before_fetch [OF ne, of loads_again 3, THEN conjunct2]
    C3_reset_before_fetch [OF ne, of times_ten_async 3, THEN conjunct2] ne
  show ?thesis
    unfolding d h by (simp add: loads_again_def times_ten_async_def)
qed

text \<open>
  Claim C4, as stated, asks that with a result as long as the deduplicated key list every
  Promise of the batch resolves to the result value at its position. An array of the right
  length may have a hole, and \<^verbatim>\<open>forEach\<close> skips a hole: the resolver at that
  position is never called. The run below is two \<^verbatim>\<open>load\<close> calls, the flush and
  the \<^verbatim>\<open>then\<close> reaction, with a loader function that returns an array of length two
  whose second index was never assigned. The Promise that \<^verbatim>\<open>load\<close> returned for
  the second key is still pending afterwards, and nothing is queued or in flight that could
  settle it.
\<close>

theorem C4_counterexample:
  "snd (skips_second (first_seen [3, 5])) = Returns [Value 30, Hole] \<and>
   length [Value 30, Hole :: (nat, unit) item] = length (first_seen [3, 5 :: nat]) \<and>
   fst (load 5 (loads [3, 5] new_world_nat)) = 1 \<and>
   heap (fold step [Microtask skips_second, Microtask skips_second] (loads [3, 5] new_world_nat)) =
     [Fulfilled 30, Pending] \<and>
   microtasks (fold step [Microtask skips_second, Microtask skips_second]
                (loads [3, 5] new_world_nat)) = [] \<and>
   inflight (fold step [Microtask skips_second, Microtask skips_second]
              (loads [3, 5] new_world_nat)) = []"
  by code_simp

text \<open>
  Claim C4, amended. Take the batch of the \<^verbatim>\<open>load\<close> calls \<open>ks\<close>, made while no
  flush is pending in a world the program can be in, and let \<open>rets\<close> be as long as the
  deduplicated key list. The Promise \<open>p\<close> that \<^verbatim>\<open>load\<close> returned for the \<open>i\<close>-th
  key of the deduplicated list is the one of the \<open>i\<close>-th resolver. When the
  \<^verbatim>\<open>then\<close> reaction of this batch runs with \<open>rets\<close>, in any world \<open>w'\<close> the
  program can be in, no \<^verbatim>\<open>catch\<close> reaction is queued, and from then on, whatever
  happens, \<open>p\<close> is what the element \<open>rets ! i\<close> makes of it: fulfilled with a plain
  value; following a thenable, or settled as the thenable settled; still pending where
  \<open>rets\<close> has a hole. This reaction is what \<^verbatim>\<open>flushJobs\<close> registers for the
  batch: it is queued at once when the loader function returns the array \<open>rets\<close>; when
  the loader function returns a Promise that fulfils with \<open>rets\<close>, it is registered on
  that Promise and queued when the Promise settles. The last two parts run a batch from end to end, when nothing else
  is queued and the loader function loads no key itself: the flush, the settling of the
  loader Promise where there is one, and the reaction leave \<open>p\<close> as said, whatever
  happens afterwards.
\<close>

theorem C4_alignment:
  fixes w :: "('k, 'v, 'e) world"
  assumes "reachable w" and "\<not> isFlushPending (dl w)"
    and "length rets = length (first_seen ks)" and "i < length (first_seen ks)"
  shows "let w1 = loads ks w;
             rs = resolveArr (dl w1);
             p = fst (load (first_seen ks ! i) w1);
             t = ThenReaction (Fulfils rets) rs (rejectArr (dl w1))
         in p = rs ! i \<and>
            (\<forall>(w' :: ('k, 'v, 'e) world) q lf evs. reachable w' \<and> microtasks w' = t # q \<longrightarrow>
               microtasks (run_microtask lf w') = q \<and>
               settled_by (rets ! i) (heap (fold step evs (run_microtask lf w')) ! p)) \<and>
            (snd (loaderFn (first_seen ks)) = Returns rets \<longrightarrow>
               last (microtasks (flushJobs loaderFn w1)) = t) \<and>
            (snd (loaderFn (first_seen ks)) = ReturnsPromise (Some (Fulfils rets)) \<longrightarrow>
               last (inflight (flushJobs loaderFn w1)) =
                 (Some (Fulfils rets), rs, rejectArr (dl w1))) \<and>
            (\<forall>(w' :: ('k, 'v, 'e) world) n. n < length (inflight w') \<and>
                     inflight w' ! n = (Some (Fulfils rets), rs, rejectArr (dl w1)) \<longrightarrow>
               microtasks (loader_settles n w') = microtasks w' @ [t]) \<and>
            (microtasks w = [] \<and> loaderFn (first_seen ks) = ([], Returns rets) \<longrightarrow>
               (\<forall>lf evs. settled_by (rets ! i)
                  (heap (fold step evs (run_microtask lf (run_microtask loaderFn w1))) ! p))) \<and>
            (microtasks w = [] \<and>
             loaderFn (first_seen ks) = ([], ReturnsPromise (Some (Fulfils rets))) \<longrightarrow>
               (\<forall>lf evs. settled_by (rets ! i)
                  (heap (fold step evs (run_microtask lf
                     (loader_settles (length (inflight w)) (run_microtask loaderFn w1)))) ! p)))"
proof -
  let ?w1 = "loads ks w"
  let ?rs = "resolveArr (dl ?w1)"
  let ?rjs = "rejectArr (dl ?w1)"
  let ?p = "fst (load (first_seen ks ! i) ?w1)"
  let ?t = "ThenReaction (Fulfils rets) ?rs ?rjs"
  let ?K = "first_seen ks"
  from assms(1,2) have idle: "dl w = new_dataloader" by (rule reachable_idle)
  then have b: "?w1 = batch_of ks w" by (rule loads_idle)
  from b have lrs: "length ?rs = length ?K" and d: "data (dl ?w1) = ?K"
    by (simp_all add: batch_of_def Let_def)
  from assms(4) d have ne: "data (dl ?w1) \<noteq> []" by auto
  from assms(4) have ks: "ks \<noteq> []" by auto
  from idle assms(4) have 1: "?p = ?rs ! i" by (rule load_batch_nth)
  from assms(4) lrs have i: "i < length ?rs" by simp
  from assms(3) lrs have ok: "\<forall>j < length rets. rets ! j \<noteq> Hole \<longrightarrow> j < length ?rs" by simp
  have G: "microtasks (run_microtask lf w') = q \<and>
           settled_by (rets ! i) (heap (fold step evs (run_microtask lf w')) ! ?p)"
    if "reachable w'" "microtasks w' = ?t # q" for w' :: "('k, 'v, 'e) world" and q lf evs
    using then_reaction_position [OF that ok i, of lf evs] assms(3,4) 1 by simp
  then have 2: "\<forall>(w' :: ('k, 'v, 'e) world) q lf evs. reachable w' \<and> microtasks w' = ?t # q \<longrightarrow>
      microtasks (run_microtask lf w') = q \<and>
      settled_by (rets ! i) (heap (fold step evs (run_microtask lf w')) ! ?p)"
    by blast
  have 4: "snd (loaderFn ?K) = Returns rets \<longrightarrow> last (microtasks (flushJobs loaderFn ?w1)) = ?t"
    using ne d by (simp add: last_microtasks_flushJobs)
  have 5: "snd (loaderFn ?K) = ReturnsPromise (Some (Fulfils rets)) \<longrightarrow>
      last (inflight (flushJobs loaderFn ?w1)) = (Some (Fulfils rets), ?rs, ?rjs)"
    using ne d by (simp add: last_inflight_flushJobs)
  have 6: "\<forall>(w' :: ('k, 'v, 'e) world) n. n < length (inflight w') \<and>
             inflight w' ! n = (Some (Fulfils rets), ?rs, ?rjs) \<longrightarrow>
      microtasks (loader_settles n w') = microtasks w' @ [?t]"
    by (simp add: loader_settles_queues)
  have 7: "microtasks w = [] \<and> loaderFn ?K = ([], Returns rets) \<longrightarrow>
      (\<forall>lf evs. settled_by (rets ! i)
         (heap (fold step evs (run_microtask lf (run_microtask loaderFn ?w1))) ! ?p))"
  proof (intro impI allI)
    fix lf :: "('k, 'v, 'e) loaderFn" and evs
    assume a: "microtasks w = [] \<and> loaderFn ?K = ([], Returns rets)"
    then have q: "microtasks w = []" and lfK: "loaderFn ?K = ([], Returns rets)" by simp_all
    let ?wp = "?w1\<lparr>microtasks := []\<rparr>"
    note F = flush_of_batch [OF assms(1) q ks, of loaderFn]
    from F have run: "run_microtask loaderFn ?w1 = flushJobs loaderFn ?wp" by blast
    from F have r: "reachable (run_microtask loaderFn ?w1)" by blast
    from ne have "data (dl ?wp) \<noteq> []" by simp
    from microtasks_flushJobs [OF this, of loaderFn] d lfK
    have "microtasks (run_microtask loaderFn ?w1) = ?t # []" by (simp add: run)
    from G [OF r this, of lf evs]
    show "settled_by (rets ! i)
        (heap (fold step evs (run_microtask lf (run_microtask loaderFn ?w1))) ! ?p)" ..
  qed
  have 8: "microtasks w = [] \<and> loaderFn ?K = ([], ReturnsPromise (Some (Fulfils rets))) \<longrightarrow>
      (\<forall>lf evs. settled_by (rets ! i)
         (heap (fold step evs (run_microtask lf
            (loader_settles (length (inflight w)) (run_microtask loaderFn ?w1)))) ! ?p))"
  proof (intro impI allI)
    fix lf :: "('k, 'v, 'e) loaderFn" and evs
    assume a: "microtasks w = [] \<and> loaderFn ?K = ([], ReturnsPromise (Some (Fulfils rets)))"
    then have q: "microtasks w = []"
      and lfK: "loaderFn ?K = ([], ReturnsPromise (Some (Fulfils rets)))" by simp_all
    let ?wp = "?w1\<lparr>microtasks := []\<rparr>"
    let ?wF = "run_microtask loaderFn ?w1"
    note F = flush_of_batch [OF assms(1) q ks, of loaderFn]
    from F have run: "?wF = flushJobs loaderFn ?wp" by blast
    from F have r: "reachable ?wF" by blast
    from ne have nep: "data (dl ?wp) \<noteq> []" by simp
    from microtasks_flushJobs [OF nep, of loaderFn] d lfK
    have m: "microtasks ?wF = []" by (simp add: run)
    from inflight_flushJobs [OF nep, of loaderFn] d lfK
    have fl: "inflight ?wF = inflight w @ [(Some (Fulfils rets), ?rs, ?rjs)]" by (simp add: run)
    then have "length (inflight w) < length (inflight ?wF)"
      and "inflight ?wF ! length (inflight w) = (Some (Fulfils rets), ?rs, ?rjs)"
      by simp_all
    then have "microtasks (loader_settles (length (inflight w)) ?wF) = microtasks ?wF @ [?t]"
      by (rule loader_settles_queues)
    with m have m': "microtasks (loader_settles (length (inflight w)) ?wF) = ?t # []" by simp
    from r have r': "reachable (loader_settles (length (inflight w)) ?wF)"
      by (rule reachable_loader_settles)
    from G [OF r' m', of lf evs]
    show "settled_by (rets ! i) (heap (fold step evs (run_microtask lf
            (loader_settles (length (inflight w)) ?wF))) ! ?p)" ..
  qed
  from 1 2 4 5 6 7 8 show ?thesis
    unfolding Let_def by (intro conjI)
qed

theorem C4_alignment_witness:
  "reachable new_world_nat \<and> \<not> isFlushPending (dl new_world_nat) \<and>
   microtasks new_world_nat = [] \<and>
   fst (load 5 (loads [3, 5, 7] new_world_nat)) = 1 \<and>
   times_ten (first_seen [3, 5, 7]) = ([], Returns [Value 30, Value 50, Value 70]) \<and>
   heap (fold step [Load 9, Microtask times_ten]
          (run_microtask times_ten (run_microtask times_ten (loads [3, 5, 7] new_world_nat)))) ! 1 =
     Fulfilled 50 \<and>
   times_ten_async (first_seen [3, 5, 7]) =
     ([], ReturnsPromise (Some (Fulfils [Value 30, Value 50, Value 70]))) \<and>
   heap (fold step [Load 9, Microtask times_ten_async]
          (run_microtask times_ten_async (loader_settles 0
            (run_microtask times_ten_async (loads [3, 5, 7] new_world_nat))))) ! 1 =
     Fulfilled 50 \<and>
   skips_second (first_seen [3, 5]) = ([], Returns [Value 30, Hole]) \<and>
   heap (fold step [Load 9, Microtask skips_second, Adopts 1]
          (run_microtask skips_second (run_microtask skips_second (loads [3, 5] new_world_nat)))) ! 1 =
     Pending"
proof -
  let ?w = "new_world_nat"
  let ?rets = "[Value 30, Value 50, Value 70] :: (nat, unit) item list"
  let ?holed = "[Value 30, Hole] :: (nat, unit) item list"
  have r: "reachable ?w" by (rule reachable.fresh)
  have f: "\<not> isFlushPending (dl ?w)" and q: "microtasks ?w = []" and fl: "length (inflight ?w) = 0"
    by (simp_all add: new_world_def new_dataloader_def)
  have l3: "length ?rets = length (first_seen [3, 5, 7 :: nat])"
    and l2: "length ?holed = length (first_seen [3, 5 :: nat])" by simp_all
  have i3: "1 < length (first_seen [3, 5, 7 :: nat])"
    and i2: "1 < length (first_seen [3, 5 :: nat])" by simp_all
  have a: "times_ten (first_seen [3, 5, 7]) = ([], Returns ?rets)"
    and b: "times_ten_async (first_seen [3, 5, 7]) = ([], ReturnsPromise (Some (Fulfils ?rets)))"
    and c: "skips_second (first_seen [3, 5]) = ([], Returns ?holed)"
    by (simp_all add: times_ten_def times_ten_async_def skips_second_def)
  have p3: "fst (load (first_seen [3, 5, 7] ! 1) (loads [3, 5, 7] ?w)) = 1"
    and p2: "fst (load (first_seen [3, 5] ! 1) (loads [3, 5] ?w)) = 1" by code_simp+
  have p: "fst (load 5 (loads [3, 5, 7] ?w)) = 1" by code_simp
  have e3: "?rets ! 1 = Value 50" and e2: "?holed ! 1 = Hole" by simp_all
  note S = C4_alignment [where w = ?w and ks = "[3, 5, 7]" and rets = ?rets and i = 1
      and loaderFn = times_ten, OF r f l3 i3, unfolded Let_def p3 e3]
  note A = C4_alignment [where w = ?w and ks = "[3, 5, 7]" and rets = ?rets and i = 1
      and loaderFn = times_ten_async, OF r f l3 i3, unfolded Let_def p3 e3 fl]
  note H = C4_alignment [where w = ?w and ks = "[3, 5]" and rets = ?holed and i = 1
      and loaderFn = skips_second, OF r f l2 i2, unfolded Let_def p2 e2]
  from S q a have "\<forall>lf evs. settled_by (Value 50)
      (heap (fold step evs (run_microtask lf (run_microtask times_ten (loads [3, 5, 7] ?w)))) ! 1)"
    by blast
  then have s: "settled_by (Value 50) (heap (fold step [Load 9, Microtask times_ten]
      (run_microtask times_ten (run_microtask times_ten (loads [3, 5, 7] ?w)))) ! 1)"
    by blast
  from A q b have "\<forall>lf evs. settled_by (Value 50)
      (heap (fold step evs (run_microtask lf (loader_settles 0
         (run_microtask times_ten_async (loads [3, 5, 7] ?w))))) ! 1)"
    by blast
  then have a': "settled_by (Value 50) (heap (fold step [Load 9, Microtask times_ten_async]
      (run_microtask times_ten_async (loader_settles 0
         (run_microtask times_ten_async (loads [3, 5, 7] ?w))))) ! 1)"
    by blast
  from H q c have "\<forall>lf evs. settled_by Hole
      (heap (fold step evs (run_microtask lf (run_microtask skips_second (loads [3, 5] ?w)))) ! 1)"
    by blast
  then have h: "settled_by Hole (heap (fold step [Load 9, Microtask skips_second, Adopts 1]
      (run_microtask skips_second (run_microtask skips_second (loads [3, 5] ?w)))) ! 1)"
    by blast
  from s have s': "heap (fold step [Load 9, Microtask times_ten]
      (run_microtask times_ten (run_microtask times_ten (loads [3, 5, 7] ?w)))) ! 1 = Fulfilled 50"
    by (simp only: settled_by.simps)
  from a' have a'': "heap (fold step [Load 9, Microtask times_ten_async]
      (run_microtask times_ten_async (loader_settles 0
         (run_microtask times_ten_async (loads [3, 5, 7] ?w))))) ! 1 = Fulfilled 50"
    by (simp only: settled_by.simps)
  from h have h': "heap (fold step [Load 9, Microtask skips_second, Adopts 1]
      (run_microtask skips_second (run_microtask skips_second (loads [3, 5] ?w)))) ! 1 = Pending"
    by (simp only: settled_by.simps)
  from r f q p a b c s' a'' h' show ?thesis by (intro conjI)
qed

text \<open>
  The same with a loader function whose result holds Promises,
  \<^verbatim>\<open>(keys) => keys.map(fetchOne)\<close>: each Promise of the batch follows its element
  and settles as the element does, one fulfilled and one rejected.
\<close>

lemma fetch_each_run:
  "heap (fold step [Microtask fetch_each, Microtask fetch_each] (loads [3, 0] new_world_nat)) =
     [Following (Some (Fulfils 30)), Following (Some (Rejects ()))] \<and>
   heap (fold step [Microtask fetch_each, Microtask fetch_each, Adopts 1, Adopts 0]
          (loads [3, 0] new_world_nat)) =
     [Fulfilled 30, Rejected (Thrown ())]"
  by code_simp

text \<open>
  Claim C5 asks that every Promise of a batch is rejected when the loader function fails, by
  throwing or by a rejected Promise. Lemma \<open>loader_rejection_rejects_all\<close> above proves it
  for a loader Promise that rejects. A loader function that throws is called inside the
  argument of \<^verbatim>\<open>Promise.resolve\<close>, so the exception leaves \<^verbatim>\<open>flushJobs\<close> before
  the \<^verbatim>\<open>catch\<close> callback is registered. The run below is the failing input: two
  \<^verbatim>\<open>load\<close> calls and the flush, with a loader function that throws. Both Promises are
  still pending afterwards, nothing is queued or in flight that could settle them, and the
  exception is uncaught.
\<close>

theorem C5_sync_throw_leaves_pending:
  "heap (run_microtask always_throws (loads [3, 5] new_world_nat)) = [Pending, Pending] \<and>
   microtasks (run_microtask always_throws (loads [3, 5] new_world_nat)) = [] \<and>
   inflight (run_microtask always_throws (loads [3, 5] new_world_nat)) = [] \<and>
   dl (run_microtask always_throws (loads [3, 5] new_world_nat)) = new_dataloader \<and>
   uncaught (run_microtask always_throws (loads [3, 5] new_world_nat)) = [()]"
  by code_simp

text \<open>The two Promises stay pending whatever happens afterwards.\<close>

lemma sync_throw_forever:
  "heap (fold step evs (run_microtask always_throws (loads [3, 5] new_world_nat))) ! 0 = Pending \<and>
   heap (fold step evs (run_microtask always_throws (loads [3, 5] new_world_nat))) ! 1 = Pending"
proof -
  let ?w = "loads [3, 5] new_world_nat"
  have r: "reachable ?w" by (intro reachable_loads reachable.fresh)
  have q: "microtasks ?w = FlushJobs # []" by code_simp
  have t: "snd (always_throws (data (dl ?w))) = Throws ()" by (simp add: always_throws_def)
  have p: "0 \<in> set (resolveArr (dl ?w))" "1 \<in> set (resolveArr (dl ?w))" by code_simp+
  from sync_throw_never_settles [where loaderFn = always_throws and evs = evs, OF r q t p(1)]
    sync_throw_never_settles [where loaderFn = always_throws and evs = evs, OF r q t p(2)]
  show ?thesis by simp
qed

text \<open>
  The same run with a loader function that returns a Promise which rejects: the flush, the
  rejection of the loader Promise, the \<^verbatim>\<open>then\<close> reaction that passes it on and the
  \<^verbatim>\<open>catch\<close> reaction. Both Promises are rejected with the loader's error.
\<close>

lemma rejecting_loader_run:
  "heap (fold step [Microtask always_rejects, Settles 0, Microtask always_rejects,
                    Microtask always_rejects]
          (loads [3, 5] new_world_nat)) =
     [Rejected (Thrown ()), Rejected (Thrown ())]"
  by code_simp

text \<open>
  Claim C6, as stated, asks for one callback pair per \<^verbatim>\<open>load\<close> call. Two calls with
  the same key leave one resolver, not two: the second call returns at the cache check.
\<close>

theorem C6_counterexample:
  "length (resolveArr (dl (loads [1, 1] new_world_nat))) \<noteq> length [1 :: nat, 1]"
  by code_simp

text \<open>
  Claim C6, amended. The lists of resolvers and rejectors hold one entry per distinct
  pending key, parallel to \<^verbatim>\<open>data\<close>: in every world the program can be in they are as
  long as \<^verbatim>\<open>data\<close>, whose keys are distinct, and the \<open>i\<close>-th resolver settles the
  Promise that \<^verbatim>\<open>load\<close> returns for the \<open>i\<close>-th pending key. After the
  \<^verbatim>\<open>load\<close> calls \<open>ks\<close> of a batch both lists have as many entries as \<open>ks\<close> has
  distinct keys.
\<close>

theorem C6_callbacks_per_distinct_key:
  assumes "reachable w"
  shows "length (resolveArr (dl w)) = length (data (dl w)) \<and>
         rejectArr (dl w) = resolveArr (dl w) \<and>
         distinct (data (dl w)) \<and>
         (\<forall>i < length (data (dl w)). fst (load (data (dl w) ! i) w) = resolveArr (dl w) ! i) \<and>
         (\<not> isFlushPending (dl w) \<longrightarrow>
            data (dl (loads ks w)) = first_seen ks \<and>
            length (resolveArr (dl (loads ks w))) = card (set ks) \<and>
            length (rejectArr (dl (loads ks w))) = card (set ks))"
proof -
  from assms have s: "sched_inv w" and h: "heap_inv [] w"
    by (rule reachable_sched_inv, rule reachable_heap_inv)
  from s have "length (map snd (cachePromises (dl w))) = length (map fst (cachePromises (dl w)))"
    by simp
  with s have 1: "length (resolveArr (dl w)) = length (data (dl w))" by (simp add: sched_inv_def)
  from h have 2: "rejectArr (dl w) = resolveArr (dl w)" by (simp add: heap_inv_def)
  from s have 3: "distinct (data (dl w))" by (simp add: sched_inv_def)
  have 4: "\<forall>i < length (data (dl w)). fst (load (data (dl w) ! i) w) = resolveArr (dl w) ! i"
    using cached_nth [OF s] by (simp add: load_cached)
  have 5: "data (dl (loads ks w)) = first_seen ks \<and>
           length (resolveArr (dl (loads ks w))) = card (set ks) \<and>
           length (rejectArr (dl (loads ks w))) = card (set ks)" if "\<not> isFlushPending (dl w)"
  proof -
    from assms that have "dl w = new_dataloader" by (rule reachable_idle)
    then have "loads ks w = batch_of ks w" by (rule loads_idle)
    moreover have "length (first_seen ks) = card (set ks)"
      using distinct_card [of "first_seen ks"] by simp
    ultimately show ?thesis by (simp add: batch_of_def Let_def)
  qed
  from 1 2 3 4 5 show ?thesis by blast
qed

theorem C6_callbacks_per_distinct_key_witness:
  "reachable new_world_nat \<and>
   \<not> isFlushPending (dl new_world_nat) \<and>
   data (dl (loads [1, 1, 2] new_world_nat)) = [1, 2] \<and>
   length (resolveArr (dl (loads [1, 1, 2] new_world_nat))) = 2 \<and>
   length (rejectArr (dl (loads [1, 1, 2] new_world_nat))) = 2"
proof -
  have r: "reachable new_world_nat" by (rule reachable.fresh)
  have c: "card (set [1, 1, 2::nat]) = 2" by simp
  from C6_callbacks_per_distinct_key [OF r, of "[1, 1, 2]"] r c show ?thesis
    by (simp add: new_world_def new_dataloader_def)
qed




text \<open>
  Claim C8. When \<^verbatim>\<open>flushJobs\<close> runs while \<^verbatim>\<open>data\<close> is empty it clears
  \<^verbatim>\<open>isFlushPending\<close> and changes nothing else; the loader function is not called and
  no exception is raised.
\<close>

theorem C8_empty_flush:
  assumes "data (dl w) = []"
  shows "flushJobs loaderFn w = w\<lparr>dl := (dl w)\<lparr>isFlushPending := False\<rparr>\<rparr> \<and>
         calls (flushJobs loaderFn w) = calls w \<and>
         uncaught (flushJobs loaderFn w) = uncaught w"
  using assms by (simp add: flushJobs_def)

theorem C8_empty_flush_witness:
  "data (dl new_world_nat) = [] \<and>
   flushJobs times_ten new_world_nat = new_world_nat \<and>
   calls (flushJobs times_ten new_world_nat) = []"
  using C8_empty_flush [of "new_world_nat :: (nat, nat, unit) world" times_ten]
  by (simp add: new_world_def new_dataloader_def)

text \<open>
  Claim C9. In every world the program can be in, at most one \<^verbatim>\<open>flushJobs\<close> is
  queued, and one is queued exactly when \<^verbatim>\<open>isFlushPending\<close> is set. A
  \<^verbatim>\<open>load\<close> call made while the flag is clear sets it and queues one
  \<^verbatim>\<open>flushJobs\<close>; a \<^verbatim>\<open>load\<close> call made while the flag is set queues nothing.
\<close>

theorem C9_single_flush:
  assumes "reachable w"
  shows "count_list (microtasks w) FlushJobs \<le> 1 \<and>
         (isFlushPending (dl w) \<longleftrightarrow> FlushJobs \<in> set (microtasks w)) \<and>
         (\<not> isFlushPending (dl w) \<longrightarrow>
            microtasks (snd (load k w)) = microtasks w @ [FlushJobs] \<and>
            isFlushPending (dl (snd (load k w)))) \<and>
         (isFlushPending (dl w) \<longrightarrow>
            microtasks (snd (load k w)) = microtasks w \<and>
            isFlushPending (dl (snd (load k w))))"
proof -
  from assms have inv: "sched_inv w" by (rule reachable_sched_inv)
  then have c: "count_list (microtasks w) FlushJobs = (if isFlushPending (dl w) then 1 else 0)"
    by (simp add: sched_inv_def)
  then have 1: "count_list (microtasks w) FlushJobs \<le> 1" by simp
  from c have 2: "isFlushPending (dl w) \<longleftrightarrow> FlushJobs \<in> set (microtasks w)"
    using count_list_0_iff [of "microtasks w" FlushJobs] by (auto split: if_splits)
  have 3: "microtasks (snd (load k w)) = microtasks w @ [FlushJobs] \<and>
           isFlushPending (dl (snd (load k w)))" if "\<not> isFlushPending (dl w)"
  proof -
    from inv that have "map fst (cachePromises (dl w)) = []" by (simp add: sched_inv_def)
    then have "cachePromises (dl w) = []" by simp
    then have "map_of (cachePromises (dl w)) k = None" by simp
    with that show ?thesis by (simp add: load_fresh)
  qed
  have 4: "microtasks (snd (load k w)) = microtasks w \<and> isFlushPending (dl (snd (load k w)))"
    if "isFlushPending (dl w)"
    using that by (cases "map_of (cachePromises (dl w)) k") (simp_all add: load_fresh load_cached)
  from 1 2 3 4 show ?thesis by blast
qed

theorem C9_single_flush_witness:
  "reachable new_world_nat \<and>
   \<not> isFlushPending (dl new_world_nat) \<and>
   microtasks (snd (load 3 new_world_nat)) = [FlushJobs] \<and>
   reachable (loads [3] new_world_nat) \<and>
   isFlushPending (dl (loads [3] new_world_nat)) \<and>
   count_list (microtasks (loads [3] new_world_nat)) FlushJobs \<le> 1 \<and>
   microtasks (snd (load 5 (loads [3] new_world_nat))) = [FlushJobs]"
proof -
  let ?w0 = "new_world_nat :: (nat, nat, unit) world"
  let ?w1 = "loads [3] ?w0"
  have r0: "reachable ?w0" by (rule reachable.fresh)
  have r1: "reachable ?w1" by (intro reachable_loads reachable.fresh)
  have f0: "\<not> isFlushPending (dl ?w0)" and q0: "microtasks ?w0 = []" by code_simp+
  have f1: "isFlushPending (dl ?w1)" and q1: "microtasks ?w1 = [FlushJobs]" by code_simp+
  from C9_single_flush [OF r0, of 3] C9_single_flush [OF r1, of 5] r0 r1 f0 f1 q0 q1
  show ?thesis by simp
qed

text \<open>
  Claim C10. In every world the program can be in, no call of the loader function so far had
  an empty key list, and a queued \<^verbatim>\<open>flushJobs\<close> will find at least one pending key.
  What the loader function would answer to the empty list is never looked at: two loader
  functions that agree on every list that is not empty cannot be told apart by any
  microtask. A \<^verbatim>\<open>flushJobs\<close> that is next in the queue applies the loader function
  to the content of \<^verbatim>\<open>data\<close>, which is not empty: the call is logged with this
  argument, the outcome depends on the loader function through its answer to this argument
  only, and loader functions whose calls end differently give different worlds. A microtask
  other than \<^verbatim>\<open>flushJobs\<close> does not call the loader function.
\<close>

theorem C10_no_empty_call:
  fixes w :: "('k, 'v, 'e) world"
  assumes "reachable w"
  shows "[] \<notin> set (calls w) \<and>
         (FlushJobs \<in> set (microtasks w) \<longrightarrow> data (dl w) \<noteq> []) \<and>
         (\<forall>lf lf'. (\<forall>keys. keys \<noteq> [] \<longrightarrow> lf' keys = lf keys) \<longrightarrow>
            run_microtask lf' w = run_microtask lf w) \<and>
         (\<forall>q lf. microtasks w = FlushJobs # q \<longrightarrow>
            data (dl w) \<noteq> [] \<and>
            calls (run_microtask lf w) = calls w @ [data (dl w)] \<and>
            (\<forall>lf'. lf' (data (dl w)) = lf (data (dl w)) \<longrightarrow>
               run_microtask lf' w = run_microtask lf w) \<and>
            (\<forall>lf'. run_microtask lf' w = run_microtask lf w \<longrightarrow>
               snd (lf' (data (dl w))) = snd (lf (data (dl w))))) \<and>
         (\<forall>t q lf. microtasks w = t # q \<and> t \<noteq> FlushJobs \<longrightarrow>
            calls (run_microtask lf w) = calls w)"
proof -
  from assms have 1: "[] \<notin> set (calls w)"
    by (induction rule: reachable.induct) (simp_all add: new_world_def no_empty_call_step)
  from assms have s: "sched_inv w" by (rule reachable_sched_inv)
  then have 2: "FlushJobs \<in> set (microtasks w) \<longrightarrow> data (dl w) \<noteq> []"
    using count_list_0_iff [of "microtasks w" FlushJobs]
    by (auto simp: sched_inv_def split: if_splits)
  have 3: "\<forall>lf lf'. (\<forall>keys. keys \<noteq> [] \<longrightarrow> lf' keys = lf keys) \<longrightarrow>
      run_microtask lf' w = run_microtask lf w"
  proof (intro allI impI)
    fix lf lf' :: "('k, 'v, 'e) loaderFn"
    assume "\<forall>keys. keys \<noteq> [] \<longrightarrow> lf' keys = lf keys"
    then have "data (dl w) \<noteq> [] \<Longrightarrow> lf' (data (dl w)) = lf (data (dl w))" by simp
    then show "run_microtask lf' w = run_microtask lf w" by (rule run_microtask_cong)
  qed
  have 4: "\<forall>q lf. microtasks w = FlushJobs # q \<longrightarrow>
      data (dl w) \<noteq> [] \<and>
      calls (run_microtask lf w) = calls w @ [data (dl w)] \<and>
      (\<forall>lf'. lf' (data (dl w)) = lf (data (dl w)) \<longrightarrow>
         run_microtask lf' w = run_microtask lf w) \<and>
      (\<forall>lf'. run_microtask lf' w = run_microtask lf w \<longrightarrow>
         snd (lf' (data (dl w))) = snd (lf (data (dl w))))"
  proof (intro allI impI)
    fix q and lf :: "('k, 'v, 'e) loaderFn"
    assume m: "microtasks w = FlushJobs # q"
    note F = flush_in_reachable [OF assms m]
    let ?wp = "w\<lparr>microtasks := q\<rparr>"
    from F(1) have nep: "data (dl ?wp) \<noteq> []" by simp
    from calls_flushJobs [OF nep, of lf]
    have a: "calls (run_microtask lf w) = calls w @ [data (dl w)]" by (simp add: F(3))
    have b: "\<forall>lf'. lf' (data (dl w)) = lf (data (dl w)) \<longrightarrow>
        run_microtask lf' w = run_microtask lf w"
      by (intro allI impI run_microtask_cong)
    have c: "\<forall>lf'. run_microtask lf' w = run_microtask lf w \<longrightarrow>
        snd (lf' (data (dl w))) = snd (lf (data (dl w)))"
    proof (intro allI impI)
      fix lf' :: "('k, 'v, 'e) loaderFn"
      assume "run_microtask lf' w = run_microtask lf w"
      then have "flushJobs lf' ?wp = flushJobs lf ?wp" by (simp add: F(3))
      from flushJobs_answer_used [OF nep this]
      show "snd (lf' (data (dl w))) = snd (lf (data (dl w)))" by simp
    qed
    from F(1) a b c show "data (dl w) \<noteq> [] \<and>
      calls (run_microtask lf w) = calls w @ [data (dl w)] \<and>
      (\<forall>lf'. lf' (data (dl w)) = lf (data (dl w)) \<longrightarrow>
         run_microtask lf' w = run_microtask lf w) \<and>
      (\<forall>lf'. run_microtask lf' w = run_microtask lf w \<longrightarrow>
         snd (lf' (data (dl w))) = snd (lf (data (dl w))))"
      by (intro conjI)
  qed
  have 5: "\<forall>t q lf. microtasks w = t # q \<and> t \<noteq> FlushJobs \<longrightarrow>
      calls (run_microtask lf w) = calls w"
    by (simp add: run_microtask_def calls_exec_other)
  from 1 2 3 4 5 show ?thesis by (intro conjI)
qed

theorem C10_no_empty_call_witness:
  "reachable (loads [3, 5] new_world_nat) \<and>
   microtasks (loads [3, 5] new_world_nat) = [FlushJobs] \<and>
   data (dl (loads [3, 5] new_world_nat)) = [3, 5] \<and>
   calls (run_microtask times_ten (loads [3, 5] new_world_nat)) = [[3, 5]] \<and>
   throws_on_empty [] \<noteq> times_ten [] \<and>
   run_microtask throws_on_empty (loads [3, 5] new_world_nat) =
     run_microtask times_ten (loads [3, 5] new_world_nat) \<and>
   drops_last [3, 5] \<noteq> times_ten [3, 5] \<and>
   run_microtask drops_last (loads [3, 5] new_world_nat) \<noteq>
     run_microtask times_ten (loads [3, 5] new_world_nat) \<and>
   reachable (run_microtask times_ten (loads [3, 5] new_world_nat)) \<and>
   [] \<notin> set (calls (run_microtask times_ten (loads [3, 5] new_world_nat))) \<and>
   calls (run_microtask times_ten (run_microtask times_ten (loads [3, 5] new_world_nat))) =
     [[3, 5]]"
proof -
  let ?w1 = "loads [3, 5] new_world_nat"
  let ?w2 = "run_microtask times_ten ?w1"
  have r1: "reachable ?w1" by (intro reachable_loads reachable.fresh)
  then have r2: "reachable ?w2" by (rule reachable_run_microtask)
  have q1: "microtasks ?w1 = FlushJobs # []" by code_simp
  have d1: "data (dl ?w1) = [3, 5]" by code_simp
  have c1: "calls new_world_nat = []" by (simp add: new_world_def)
  have q2: "microtasks ?w2 = ThenReaction (Fulfils [Value 30, Value 50]) [0, 1] [0, 1] # []"
    by code_simp
  have a: "snd (drops_last [3, 5]) \<noteq> snd (times_ten [3, 5])"
    and e: "throws_on_empty [] \<noteq> times_ten []"
    and ag: "\<forall>keys. keys \<noteq> [] \<longrightarrow> throws_on_empty keys = times_ten keys"
    by (simp_all add: drops_last_def times_ten_def throws_on_empty_def)
  note T1 = C10_no_empty_call [OF r1]
  note T2 = C10_no_empty_call [OF r2]
  from T1 q1 have t1: "calls ?w2 = calls ?w1 @ [data (dl ?w1)]" by blast
  from T1 have "\<forall>lf lf'. (\<forall>keys. keys \<noteq> [] \<longrightarrow> lf' keys = lf keys) \<longrightarrow>
      run_microtask lf' ?w1 = run_microtask lf ?w1"
    by blast
  then have "(\<forall>keys. keys \<noteq> [] \<longrightarrow> throws_on_empty keys = times_ten keys) \<longrightarrow>
      run_microtask throws_on_empty ?w1 = run_microtask times_ten ?w1"
    by blast
  with ag have t0: "run_microtask throws_on_empty ?w1 = run_microtask times_ten ?w1" by blast
  from T1 q1 have "\<forall>lf'. run_microtask lf' ?w1 = run_microtask times_ten ?w1 \<longrightarrow>
      snd (lf' (data (dl ?w1))) = snd (times_ten (data (dl ?w1)))"
    by blast
  then have "run_microtask drops_last ?w1 = run_microtask times_ten ?w1 \<longrightarrow>
      snd (drops_last (data (dl ?w1))) = snd (times_ten (data (dl ?w1)))"
    by blast
  with a have t2: "run_microtask drops_last ?w1 \<noteq> run_microtask times_ten ?w1"
    by (auto simp: d1)
  from T2 have t3: "[] \<notin> set (calls ?w2)" by blast
  have ne: "ThenReaction (Fulfils [Value 30, Value 50]) [0, 1] [0, 1] \<noteq>
      (FlushJobs :: (nat, unit) task)" by simp
  from T2 q2 ne have t4: "calls (run_microtask times_ten ?w2) = calls ?w2" by blast
  from a have a': "drops_last [3, 5] \<noteq> times_ten [3, 5]" by auto
  from r1 q1 d1 t1 e t0 a' t2 r2 t3 t4 show ?thesis by (simp add: c1)
qed

end
